theory Spec2Isabelle
  imports
    Main
    "HOL-Library.Product_Lexorder"
    "HOL-Library.List_Lexorder"
    "HOL-Library.Char_ord"
    "HOL-Library.Log_Nat"
begin

section \<open>Python string primitives used by the agent\<close>

text \<open>
  Strings are \<open>char list\<close>. The model is exact for ASCII text: \<open>str.lower\<close> maps
  \<open>A\<close>..\<open>Z\<close> to \<open>a\<close>..\<open>z\<close>, and the whitespace of \<open>str.strip()\<close> and
  \<open>str.split()\<close> is the ASCII whitespace of \<open>str.isspace\<close> (code points 9 to 13,
  28 to 31 and 32). Characters above 127 are left alone and are never whitespace.
  Comparison of strings (\<open><\<close>, \<open>\<le>\<close>) is the lexicographic order on character
  codes, as in Python.
\<close>

definition is_space :: "char \<Rightarrow> bool" where
  "is_space c =
     (let n = (of_char c :: nat) in (9 \<le> n \<and> n \<le> 13) \<or> (28 \<le> n \<and> n \<le> 31) \<or> n = 32)"

definition lower_char :: "char \<Rightarrow> char" where
  "lower_char c =
     (let n = (of_char c :: nat) in if 65 \<le> n \<and> n \<le> 90 then char_of (n + 32) else c)"

definition lower :: "string \<Rightarrow> string" where
  "lower s = map lower_char s"

definition strip :: "string \<Rightarrow> string" where
  "strip s = rev (dropWhile is_space (rev (dropWhile is_space s)))"

text \<open>\<open>s.split()\<close> without arguments: the maximal runs of non-whitespace, in order.\<close>

fun split_acc :: "string \<Rightarrow> string \<Rightarrow> string list" where
  "split_acc w [] = (if w = [] then [] else [w])"
| "split_acc w (c # cs) =
     (if is_space c then (if w = [] then split_acc [] cs else w # split_acc [] cs)
      else split_acc (w @ [c]) cs)"

definition split_ws :: "string \<Rightarrow> string list" where
  "split_ws s = split_acc [] s"

fun join :: "string \<Rightarrow> string list \<Rightarrow> string" where
  "join sep [] = []"
| "join sep [w] = w"
| "join sep (w # v # ws) = w @ sep @ join sep (v # ws)"

text \<open>\<open>_normalize\<close>: \<open>" ".join(value.strip().lower().split())\<close>.\<close>

definition normalize_text :: "string \<Rightarrow> string" where
  "normalize_text v = join '' '' (split_ws (lower (strip v)))"

text \<open>\<open>x in y\<close> on strings: \<open>x\<close> occurs in \<open>y\<close> as a contiguous substring.\<close>

fun starts_with :: "string \<Rightarrow> string \<Rightarrow> bool" where
  "starts_with [] ys = True"
| "starts_with (x # xs) [] = False"
| "starts_with (x # xs) (y # ys) = (x = y \<and> starts_with xs ys)"

fun str_in :: "string \<Rightarrow> string \<Rightarrow> bool" where
  "str_in xs [] = (xs = [])"
| "str_in xs (y # ys) = (starts_with xs (y # ys) \<or> str_in xs ys)"

section \<open>Clock times\<close>

text \<open>
  \<open>_clock_to_minutes\<close> calls \<open>datetime.strptime(hhmm, "%H:%M")\<close>. The format compiles
  to the regular expression \<open>(2[0-3]|[0-1]\d|\d):([0-5]\d|\d)\<close>, matched at the start
  of the text with the alternatives tried in this order; a failed match, or text left
  over after the match, raises \<open>ValueError\<close>, which is \<open>None\<close> here.
\<close>

definition is_digit :: "char \<Rightarrow> bool" where
  "is_digit c = (let n = (of_char c :: nat) in 48 \<le> n \<and> n \<le> 57)"

definition digit_val :: "char \<Rightarrow> int" where
  "digit_val c = int (of_char c) - 48"

definition char_in :: "char \<Rightarrow> char \<Rightarrow> char \<Rightarrow> bool" where
  "char_in lo hi c = ((of_char lo :: nat) \<le> of_char c \<and> (of_char c :: nat) \<le> of_char hi)"

text \<open>Each alternative returns the number it read and the text after it.\<close>

type_synonym alt = "string \<Rightarrow> (int \<times> string) option"

definition two_chars :: "(char \<Rightarrow> bool) \<Rightarrow> (char \<Rightarrow> bool) \<Rightarrow> alt" where
  "two_chars p q s =
     (case s of
        c # d # rest \<Rightarrow> if p c \<and> q d then Some (10 * digit_val c + digit_val d, rest) else None
      | _ \<Rightarrow> None)"

definition one_char :: "(char \<Rightarrow> bool) \<Rightarrow> alt" where
  "one_char p s = (case s of c # rest \<Rightarrow> if p c then Some (digit_val c, rest) else None | _ \<Rightarrow> None)"

definition re_H :: "alt list" where
  "re_H = [two_chars (\<lambda>c. c = CHR ''2'') (char_in CHR ''0'' CHR ''3''),
           two_chars (char_in CHR ''0'' CHR ''1'') is_digit,
           one_char is_digit]"

definition re_M :: "alt list" where
  "re_M = [two_chars (char_in CHR ''0'' CHR ''5'') is_digit, one_char is_digit]"

text \<open>The first alternative that matches and lets the rest of the pattern match.\<close>

fun first_alt :: "alt list \<Rightarrow> (int \<Rightarrow> string \<Rightarrow> 'a option) \<Rightarrow> string \<Rightarrow> 'a option" where
  "first_alt [] cont s = None"
| "first_alt (p # ps) cont s =
     (case p s of
        None \<Rightarrow> first_alt ps cont s
      | Some (v, rest) \<Rightarrow> (case cont v rest of None \<Rightarrow> first_alt ps cont s | Some r \<Rightarrow> Some r))"

definition re_match :: "string \<Rightarrow> (int \<times> int \<times> string) option" where
  "re_match s =
     first_alt re_H
       (\<lambda>h rest. case rest of
                    c # rest' \<Rightarrow>
                      if c = CHR '':'' then first_alt re_M (\<lambda>m left. Some (h, m, left)) rest'
                      else None
                  | [] \<Rightarrow> None) s"

definition clock_to_minutes :: "string \<Rightarrow> int option" where
  "clock_to_minutes hhmm =
     (case re_match hhmm of
        None \<Rightarrow> None
      | Some (h, m, left) \<Rightarrow> if left \<noteq> [] then None else Some (h * 60 + m))"

text \<open>\<open>_parse_time\<close>: blank text and text that does not parse both give \<open>None\<close>.\<close>

definition parse_time :: "string \<Rightarrow> int option" where
  "parse_time v = (let text = strip v in if text = [] then None else clock_to_minutes text)"

section \<open>Floating point\<close>

text \<open>
  Python floats are IEEE 754 binary64 numbers. A float is modelled by the rational
  number it denotes, and every operation by the exact result rounded to the nearest
  number with a 53-bit significand, ties to the even significand (\<open>fl\<close>). The
  exponent range is not bounded here: overflow and subnormal numbers are not modelled,
  and they are out of reach of the quantities of this program (ratios in \<open>[0, 1.12]\<close>,
  durations in minutes).
\<close>

definition pow2 :: "int \<Rightarrow> rat" where
  "pow2 e = (if 0 \<le> e then 2 ^ nat e else 1 / 2 ^ nat (- e))"

text \<open>For \<open>x > 0\<close>, the exponent \<open>e\<close> with \<open>2 ^ e \<le> x < 2 ^ (e + 1)\<close>.\<close>

definition ilog2 :: "rat \<Rightarrow> int" where
  "ilog2 x =
     (let (n, d) = quotient_of x;
          e0 = bitlen n - bitlen d
      in if pow2 e0 \<le> x then e0 else e0 - 1)"

definition round_half_even :: "rat \<Rightarrow> int" where
  "round_half_even x =
     (let f = \<lfloor>x\<rfloor>; d = x - of_int f
      in if d < 1 / 2 then f else if 1 / 2 < d then f + 1 else if even f then f else f + 1)"

definition fl :: "rat \<Rightarrow> rat" where
  "fl x =
     (if x = 0 then 0
      else let u = pow2 (ilog2 \<bar>x\<bar> - 52)
           in sgn x * of_int (round_half_even (\<bar>x\<bar> / u)) * u)"

text \<open>\<open>float(n)\<close> for an integer, and the rounded operations.\<close>

definition float_of_int :: "int \<Rightarrow> rat" where
  "float_of_int n = fl (of_int n)"

definition fadd :: "rat \<Rightarrow> rat \<Rightarrow> rat" where
  "fadd x y = fl (x + y)"

definition fmul :: "rat \<Rightarrow> rat \<Rightarrow> rat" where
  "fmul x y = fl (x * y)"

definition fdiv :: "rat \<Rightarrow> rat \<Rightarrow> rat" where
  "fdiv x y = fl (x / y)"

text \<open>\<open>a / b\<close> on two integers is the correctly rounded quotient.\<close>

definition int_truediv :: "int \<Rightarrow> int \<Rightarrow> rat" where
  "int_truediv a b = fl (of_int a / of_int b)"

text \<open>\<open>round(x)\<close> on a float: the nearest integer, ties to even.\<close>

definition py_round :: "rat \<Rightarrow> int" where
  "py_round x = round_half_even x"

section \<open>\<open>difflib.SequenceMatcher(None, a, b).ratio()\<close>\<close>

text \<open>
  The standard library's matcher, with \<open>isjunk = None\<close> and \<open>autojunk = True\<close> as the
  agent calls it. \<open>b2j\<close> maps a character to the ascending list of its positions in
  \<open>b\<close>; when \<open>b\<close> has 200 characters or more, a character that occurs more than
  \<open>len(b) // 100 + 1\<close> times is "popular" and has no entry.
\<close>

definition b2j :: "string \<Rightarrow> char \<Rightarrow> nat list" where
  "b2j b elt =
     (if 200 \<le> length b \<and> length b div 100 + 1 < length (filter (\<lambda>x. x = elt) b) then []
      else filter (\<lambda>j. b ! j = elt) [0..<length b])"

type_synonym match = "nat \<times> nat \<times> nat"

text \<open>
  \<open>find_longest_match\<close>, the inner loop over the positions \<open>j\<close> of \<open>a[i]\<close> in \<open>b\<close>.
  The dictionaries \<open>j2len\<close> and \<open>newj2len\<close> are only read through \<open>get(j - 1, 0)\<close>, so
  they are functions with value 0 off their keys; \<open>j - 1\<close> is no key when \<open>j = 0\<close>.
  \<open>i - k + 1\<close> and \<open>j - k + 1\<close> are never negative, since a match of length \<open>k\<close> that
  ends at \<open>i\<close> and \<open>j\<close> starts inside the strings.
\<close>

fun flm_row ::
  "(nat \<Rightarrow> nat) \<Rightarrow> nat \<Rightarrow> nat \<Rightarrow> nat \<Rightarrow> nat list \<Rightarrow> (nat \<Rightarrow> nat) \<times> match \<Rightarrow> (nat \<Rightarrow> nat) \<times> match"
where
  "flm_row j2len i blo bhi [] st = st"
| "flm_row j2len i blo bhi (j # js) (newj2len, (besti, bestj, bestsize)) =
     (if j < blo then flm_row j2len i blo bhi js (newj2len, (besti, bestj, bestsize))
      else if bhi \<le> j then (newj2len, (besti, bestj, bestsize))
      else let k = (if j = 0 then 0 else j2len (j - 1)) + 1
           in flm_row j2len i blo bhi js
                (newj2len(j := k),
                 if bestsize < k then (i + 1 - k, j + 1 - k, k) else (besti, bestj, bestsize)))"

definition flm_rows :: "string \<Rightarrow> string \<Rightarrow> nat \<Rightarrow> nat \<Rightarrow> nat \<Rightarrow> nat \<Rightarrow> (nat \<Rightarrow> nat) \<times> match" where
  "flm_rows a b alo ahi blo bhi =
     fold (\<lambda>i (j2len, best). flm_row j2len i blo bhi (b2j b (a ! i)) (\<lambda>_. 0, best))
       [alo..<ahi] (\<lambda>_. 0, (alo, blo, 0))"

text \<open>
  The two loops that extend the best match at both ends. No character is junk, so
  the test \<open>not isbjunk(...)\<close> of these loops is always true, and the two further
  loops of the source, which extend by junk only, never run.
\<close>

function extend_back :: "string \<Rightarrow> string \<Rightarrow> nat \<Rightarrow> nat \<Rightarrow> match \<Rightarrow> match" where
  "extend_back a b alo blo (besti, bestj, bestsize) =
     (if alo < besti \<and> blo < bestj \<and> a ! (besti - 1) = b ! (bestj - 1)
      then extend_back a b alo blo (besti - 1, bestj - 1, bestsize + 1)
      else (besti, bestj, bestsize))"
  by pat_completeness auto
termination
  by (relation "measure (\<lambda>(a, b, alo, blo, besti, bestj, bestsize). besti)") auto

function extend_fwd :: "string \<Rightarrow> string \<Rightarrow> nat \<Rightarrow> nat \<Rightarrow> match \<Rightarrow> match" where
  "extend_fwd a b ahi bhi (besti, bestj, bestsize) =
     (if besti + bestsize < ahi \<and> bestj + bestsize < bhi
         \<and> a ! (besti + bestsize) = b ! (bestj + bestsize)
      then extend_fwd a b ahi bhi (besti, bestj, bestsize + 1)
      else (besti, bestj, bestsize))"
  by pat_completeness auto
termination
  by (relation "measure (\<lambda>(a, b, ahi, bhi, besti, bestj, bestsize). ahi - (besti + bestsize))") auto

definition find_longest_match :: "string \<Rightarrow> string \<Rightarrow> nat \<Rightarrow> nat \<Rightarrow> nat \<Rightarrow> nat \<Rightarrow> match" where
  "find_longest_match a b alo ahi blo bhi =
     extend_fwd a b ahi bhi (extend_back a b alo blo (snd (flm_rows a b alo ahi blo bhi)))"

subsection \<open>The longest match lies inside its range\<close>

lemma flm_row_bounds:
  assumes "\<forall>j. j2len j \<le> i - alo" and "alo \<le> i"
    and "alo \<le> bi" and "bi + bs \<le> i + 1" and "\<forall>j. nj j \<le> i + 1 - alo"
    and "flm_row j2len i blo bhi js (nj, (bi, bj, bs)) = (nj', (bi', bj', bs'))"
  shows "alo \<le> bi' \<and> bi' + bs' \<le> i + 1 \<and> (\<forall>j. nj' j \<le> i + 1 - alo)"
  using assms(3-6)
proof (induction js arbitrary: nj bi bj bs)
  case Nil
  then show ?case by simp
next
  case (Cons j js)
  define k where "k = (if j = 0 then 0 else j2len (j - 1)) + 1"
  have "(if j = 0 then 0 else j2len (j - 1)) \<le> i - alo"
    using assms(1) by simp
  then have k: "k \<le> i + 1 - alo" "1 \<le> k"
    using assms(2) by (simp_all add: k_def)
  have eq: "flm_row j2len i blo bhi (j # js) (nj, (bi, bj, bs)) =
    (if j < blo then flm_row j2len i blo bhi js (nj, (bi, bj, bs))
     else if bhi \<le> j then (nj, (bi, bj, bs))
     else flm_row j2len i blo bhi js
            (nj(j := k), if bs < k then (i + 1 - k, j + 1 - k, k) else (bi, bj, bs)))"
    by (simp add: k_def Let_def)
  have upd: "\<forall>x. (nj(j := k)) x \<le> i + 1 - alo"
    using k Cons.prems(3) by simp
  consider "j < blo" | "\<not> j < blo" "bhi \<le> j" | "\<not> j < blo" "\<not> bhi \<le> j" "bs < k"
    | "\<not> j < blo" "\<not> bhi \<le> j" "\<not> bs < k" by blast
  then show ?case
  proof cases
    case 1
    then have "flm_row j2len i blo bhi js (nj, (bi, bj, bs)) = (nj', (bi', bj', bs'))"
      using Cons.prems(4) eq by simp
    from Cons.IH [OF Cons.prems(1,2,3) this] show ?thesis .
  next
    case 2
    then have "(nj, (bi, bj, bs)) = (nj', (bi', bj', bs'))"
      using Cons.prems(4) eq by simp
    then show ?thesis using Cons.prems(1,2,3) by simp
  next
    case 3
    then have r: "flm_row j2len i blo bhi js (nj(j := k), (i + 1 - k, j + 1 - k, k)) = (nj', (bi', bj', bs'))"
      using Cons.prems(4) eq by simp
    have "alo \<le> i + 1 - k" "i + 1 - k + k \<le> i + 1"
      using k assms(2) by linarith+
    from Cons.IH [OF this upd r] show ?thesis .
  next
    case 4
    then have r: "flm_row j2len i blo bhi js (nj(j := k), (bi, bj, bs)) = (nj', (bi', bj', bs'))"
      using Cons.prems(4) eq by simp
    from Cons.IH [OF Cons.prems(1,2) upd r] show ?thesis .
  qed
qed

lemma flm_rows_bounds:
  assumes "alo \<le> ahi" and "flm_rows a b alo ahi blo bhi = (j2len, (bi, bj, bs))"
  shows "alo \<le> bi \<and> bi + bs \<le> ahi \<and> (\<forall>j. j2len j \<le> ahi - alo)"
  using assms
proof (induction ahi arbitrary: j2len bi bj bs)
  case 0
  then show ?case by (auto simp: flm_rows_def)
next
  case (Suc n)
  show ?case
  proof (cases "alo \<le> n")
    case False
    with Suc.prems have "alo = Suc n" by simp
    with Suc.prems show ?thesis by (auto simp: flm_rows_def)
  next
    case True
    obtain j0 bi0 bj0 bs0 where r: "flm_rows a b alo n blo bhi = (j0, (bi0, bj0, bs0))"
      by (metis prod_cases3)
    from Suc.IH [OF True r] have ih: "alo \<le> bi0" "bi0 + bs0 \<le> n" "\<forall>j. j0 j \<le> n - alo" by auto
    have step: "flm_row j0 n blo bhi (b2j b (a ! n)) (\<lambda>_. 0, (bi0, bj0, bs0)) = (j2len, (bi, bj, bs))"
      using Suc.prems(2) True r by (simp add: flm_rows_def)
    show ?thesis
      using flm_row_bounds [OF ih(3) True ih(1) _ _ step] ih(2) by simp
  qed
qed

lemma extend_back_bounds:
  "extend_back a b alo blo (bi, bj, bs) = (bi', bj', bs') \<Longrightarrow> alo \<le> bi \<Longrightarrow>
   alo \<le> bi' \<and> bi' + bs' = bi + bs"
proof (induction a b alo blo "(bi, bj, bs)" arbitrary: bi bj bs rule: extend_back.induct)
  case (1 a b alo blo besti bestj bestsize)
  show ?case
  proof (cases "alo < besti \<and> blo < bestj \<and> a ! (besti - 1) = b ! (bestj - 1)")
    case True
    then have "extend_back a b alo blo (besti - 1, bestj - 1, bestsize + 1) = (bi', bj', bs')"
      using "1.prems"(1) by simp
    moreover have "alo \<le> besti - 1" using True by linarith
    ultimately have "alo \<le> bi' \<and> bi' + bs' = besti - 1 + (bestsize + 1)"
      using "1.hyps" [OF True] by blast
    then show ?thesis using True by linarith
  next
    case False
    then show ?thesis using "1.prems" by auto
  qed
qed

lemma extend_fwd_bounds:
  "extend_fwd a b ahi bhi (bi, bj, bs) = (bi', bj', bs') \<Longrightarrow> bi + bs \<le> ahi \<Longrightarrow>
   bi' = bi \<and> bi' + bs' \<le> ahi \<and> bs \<le> bs'"
proof (induction a b ahi bhi "(bi, bj, bs)" arbitrary: bi bj bs rule: extend_fwd.induct)
  case (1 a b ahi bhi besti bestj bestsize)
  show ?case
  proof (cases "besti + bestsize < ahi \<and> bestj + bestsize < bhi \<and> a ! (besti + bestsize) = b ! (bestj + bestsize)")
    case True
    then have "extend_fwd a b ahi bhi (besti, bestj, bestsize + 1) = (bi', bj', bs')"
      using "1.prems"(1) by simp
    moreover have "besti + (bestsize + 1) \<le> ahi" using True by linarith
    ultimately have "bi' = besti \<and> bi' + bs' \<le> ahi \<and> bestsize + 1 \<le> bs'"
      using "1.hyps" [OF True] by blast
    then show ?thesis by linarith
  next
    case False
    then show ?thesis using "1.prems" by auto
  qed
qed

lemma find_longest_match_bounds:
  assumes "find_longest_match a b alo ahi blo bhi = (i, j, k)" and "k \<noteq> 0"
  shows "alo \<le> i \<and> i + k \<le> ahi"
proof (cases "alo \<le> ahi")
  case True
  obtain j0 bi0 bj0 bs0 where r: "flm_rows a b alo ahi blo bhi = (j0, (bi0, bj0, bs0))"
    by (metis prod_cases3)
  obtain bi1 bj1 bs1 where e: "extend_back a b alo blo (bi0, bj0, bs0) = (bi1, bj1, bs1)"
    by (metis prod_cases3)
  have f: "extend_fwd a b ahi bhi (bi1, bj1, bs1) = (i, j, k)"
    using assms(1) r e by (simp add: find_longest_match_def)
  from flm_rows_bounds [OF True r] have b0: "alo \<le> bi0" "bi0 + bs0 \<le> ahi" by auto
  from extend_back_bounds [OF e b0(1)] have b1: "alo \<le> bi1" "bi1 + bs1 = bi0 + bs0" by auto
  from extend_fwd_bounds [OF f] b1 b0 show ?thesis by simp
next
  case False
  then have "flm_rows a b alo ahi blo bhi = (\<lambda>_. 0, (alo, blo, 0))"
    by (simp add: flm_rows_def)
  with False assms show ?thesis by (simp add: find_longest_match_def)
qed

subsection \<open>Matching blocks and the ratio\<close>

text \<open>
  \<open>get_matching_blocks\<close> keeps a stack of ranges still to be matched: it pops a range,
  records its longest match and, when that is not empty, pushes the range to the left
  of the match and then the range to its right. The recursion below visits the ranges
  in the order the stack does: the match, then all of the right range, then the left.
\<close>

function matching_blocks_rec :: "string \<Rightarrow> string \<Rightarrow> nat \<Rightarrow> nat \<Rightarrow> nat \<Rightarrow> nat \<Rightarrow> match list" where
  "matching_blocks_rec a b alo ahi blo bhi =
     (case find_longest_match a b alo ahi blo bhi of
        (i, j, k) \<Rightarrow>
          if k = 0 then []
          else (i, j, k)
               # (if i + k < ahi \<and> j + k < bhi then matching_blocks_rec a b (i + k) ahi (j + k) bhi else [])
               @ (if alo < i \<and> blo < j then matching_blocks_rec a b alo i blo j else []))"
  by pat_completeness auto
termination
proof (relation "measure (\<lambda>(a, b, alo, ahi, blo, bhi). ahi - alo)")
  show "wf (measure (\<lambda>(a, b, alo, ahi, blo, bhi). ahi - alo))" by simp
next
  fix a b :: string and alo ahi blo bhi i j k :: nat and y :: "nat \<times> nat"
  assume "(i, y) = find_longest_match a b alo ahi blo bhi" "(j, k) = y" "k \<noteq> 0"
    "i + k < ahi \<and> j + k < bhi"
  then have "find_longest_match a b alo ahi blo bhi = (i, j, k)" by (metis)
  from find_longest_match_bounds [OF this \<open>k \<noteq> 0\<close>]
  have "ahi - (i + k) < ahi - alo"
    using \<open>k \<noteq> 0\<close> \<open>i + k < ahi \<and> j + k < bhi\<close> by linarith
  then show "((a, b, i + k, ahi, j + k, bhi), (a, b, alo, ahi, blo, bhi))
        \<in> measure (\<lambda>(a, b, alo, ahi, blo, bhi). ahi - alo)"
    by simp
next
  fix a b :: string and alo ahi blo bhi i j k :: nat and y :: "nat \<times> nat"
  assume "(i, y) = find_longest_match a b alo ahi blo bhi" "(j, k) = y" "k \<noteq> 0"
    "alo < i \<and> blo < j"
  then have "find_longest_match a b alo ahi blo bhi = (i, j, k)" by (metis)
  from find_longest_match_bounds [OF this \<open>k \<noteq> 0\<close>]
  have "i - alo < ahi - alo"
    using \<open>k \<noteq> 0\<close> \<open>alo < i \<and> blo < j\<close> by linarith
  then show "((a, b, alo, i, blo, j), (a, b, alo, ahi, blo, bhi))
        \<in> measure (\<lambda>(a, b, alo, ahi, blo, bhi). ahi - alo)"
    by simp
qed

declare matching_blocks_rec.simps [simp del]

text \<open>The loop that merges adjacent blocks of the sorted list.\<close>

fun collapse :: "match \<Rightarrow> match list \<Rightarrow> match list" where
  "collapse (i1, j1, k1) [] = (if k1 \<noteq> 0 then [(i1, j1, k1)] else [])"
| "collapse (i1, j1, k1) ((i2, j2, k2) # rest) =
     (if i1 + k1 = i2 \<and> j1 + k1 = j2 then collapse (i1, j1, k1 + k2) rest
      else (if k1 \<noteq> 0 then [(i1, j1, k1)] else []) @ collapse (i2, j2, k2) rest)"

definition get_matching_blocks :: "string \<Rightarrow> string \<Rightarrow> match list" where
  "get_matching_blocks a b =
     collapse (0, 0, 0) (sort (matching_blocks_rec a b 0 (length a) 0 (length b)))
     @ [(length a, length b, 0)]"

text \<open>
  \<open>_calculate_ratio\<close>: \<open>2.0 * matches / length\<close>. The two counts are lengths of
  strings, far below \<open>2 ^ 53\<close>: their conversion to float and the doubling are exact,
  and only the division rounds.
\<close>

definition calculate_ratio :: "nat \<Rightarrow> nat \<Rightarrow> rat" where
  "calculate_ratio matches len = (if len \<noteq> 0 then fdiv (2 * of_nat matches) (of_nat len) else 1)"

definition ratio :: "string \<Rightarrow> string \<Rightarrow> rat" where
  "ratio a b =
     calculate_ratio (sum_list (map (\<lambda>(i, j, k). k) (get_matching_blocks a b))) (length a + length b)"

section \<open>The timetable and the agent\<close>

text \<open>
  A \<open>RouteRow\<close> is one row of the timetable as \<open>_load_csv\<close> builds it; reading the
  file is not modelled, the agent is built from the list of rows.
\<close>

record RouteRow =
  route_id :: string
  from_stop :: string
  to_stop :: string
  bus_number :: string
  departure_time :: string
  departure_minutes :: int
  duration_minutes :: int
  stops :: "string list"

text \<open>\<open>s.split(sep)\<close> for a separator of one character: the pieces between separators.\<close>

fun split_on_acc :: "char \<Rightarrow> string \<Rightarrow> string \<Rightarrow> string list" where
  "split_on_acc sep w [] = [w]"
| "split_on_acc sep w (c # cs) =
     (if c = sep then w # split_on_acc sep [] cs else split_on_acc sep (w @ [c]) cs)"

definition split_on :: "char \<Rightarrow> string \<Rightarrow> string list" where
  "split_on sep s = split_on_acc sep [] s"

text \<open>
  The stops of a row in \<open>_load_csv\<close>:
  \<open>[stop.strip() for stop in row["stops"].split("|") if stop.strip()]\<close>.
\<close>

definition parse_stops :: "string \<Rightarrow> string list" where
  "parse_stops cell = map strip (filter (\<lambda>stop. strip stop \<noteq> []) (split_on CHR ''|'' cell))"

text \<open>
  \<open>_build_stop_list\<close>: every stop of every route in load order, keeping the first
  spelling of each normalized name.
\<close>

definition add_stop :: "string \<Rightarrow> string list \<times> string set \<Rightarrow> string list \<times> string set" where
  "add_stop stop =
     (\<lambda>(ordered, seen).
        let key = normalize_text stop
        in if key \<notin> seen then (ordered @ [stop], insert key seen) else (ordered, seen))"

definition build_stop_list :: "RouteRow list \<Rightarrow> string list" where
  "build_stop_list rs = fst (fold (\<lambda>route. fold add_stop (stops route)) rs ([], {}))"

text \<open>The dictionary \<open>{self._normalize(stop): stop for stop in self.known_stops}\<close>.\<close>

definition stop_lookup_of :: "string list \<Rightarrow> (string \<rightharpoonup> string)" where
  "stop_lookup_of known = fold (\<lambda>stop m. m(normalize_text stop \<mapsto> stop)) known Map.empty"

definition alias_table :: "(string \<times> string) list" where
  "alias_table =
     [(''airport'', ''amausi airport''),
      (''amausi'', ''amausi airport''),
      (''station'', ''charbagh''),
      (''railway station'', ''charbagh''),
      (''charbagh station'', ''charbagh''),
      (''gomtinagar'', ''gomti nagar''),
      (''gomti nagr'', ''gomti nagar'')]"

record TransportAgent =
  routes :: "RouteRow list"
  from_options :: "string list"
  to_options :: "string list"
  known_stops :: "string list"
  stop_lookup :: "string \<rightharpoonup> string"
  aliases :: "string \<rightharpoonup> string"

text \<open>\<open>TransportAgent.__init__\<close>, from the rows that \<open>_load_csv\<close> returned.\<close>

definition transport_agent :: "RouteRow list \<Rightarrow> TransportAgent" where
  "transport_agent rows =
     \<lparr>routes = rows,
      from_options = sort (remdups (map from_stop rows)),
      to_options = sort (remdups (map to_stop rows)),
      known_stops = build_stop_list rows,
      stop_lookup = stop_lookup_of (build_stop_list rows),
      aliases = map_of alias_table\<rparr>"

section \<open>Resolving a stop name\<close>

text \<open>The float literals \<open>0.12\<close> and \<open>0.70\<close>.\<close>

definition bonus :: rat where
  "bonus = fl (12 / 100)"

definition threshold :: rat where
  "threshold = fl (70 / 100)"

text \<open>The score of one known stop: the ratio, plus the bonus for a substring.\<close>

definition score :: "string \<Rightarrow> string \<Rightarrow> rat" where
  "score key stop_key =
     (let s = ratio key stop_key
      in if str_in key stop_key \<or> str_in stop_key key then fadd s bonus else s)"

text \<open>The loop over \<open>known_stops\<close>; the state is \<open>(best_name, best_score)\<close>.\<close>

fun best_match :: "string \<Rightarrow> string list \<Rightarrow> string option \<times> rat \<Rightarrow> string option \<times> rat" where
  "best_match key [] st = st"
| "best_match key (stop # rest) (best_name, best_score) =
     (let sc = score key (normalize_text stop)
      in if best_score < sc then best_match key rest (Some stop, sc)
         else best_match key rest (best_name, best_score))"

definition resolve_stop :: "TransportAgent \<Rightarrow> string \<Rightarrow> string option" where
  "resolve_stop ag raw_stop =
     (let key = normalize_text raw_stop
      in if key = [] then None
         else let key = (case aliases ag key of Some target \<Rightarrow> target | None \<Rightarrow> key)
              in case stop_lookup ag key of
                   Some stop \<Rightarrow> Some stop
                 | None \<Rightarrow>
                     (case best_match key (known_stops ag) (None, 0) of
                        (None, best_score) \<Rightarrow> None
                      | (Some best_name, best_score) \<Rightarrow>
                          if best_score < threshold then None else Some best_name))"

section \<open>Legs of a route\<close>

text \<open>\<open>list.index\<close>: the first position of a value; \<open>None\<close> is its \<open>ValueError\<close>.\<close>

fun index_of :: "'a \<Rightarrow> 'a list \<Rightarrow> nat option" where
  "index_of x [] = None"
| "index_of x (y # ys) = (if y = x then Some 0 else map_option Suc (index_of x ys))"

text \<open>The slice \<open>xs[i:j]\<close> for indices that are not negative.\<close>

definition slice :: "'a list \<Rightarrow> nat \<Rightarrow> nat \<Rightarrow> 'a list" where
  "slice xs i j = take (j - i) (drop i xs)"

definition route_leg :: "string list \<Rightarrow> string \<Rightarrow> string \<Rightarrow> (nat \<times> nat) option" where
  "route_leg sts from_name to_name =
     (let normalized_stops = map normalize_text sts;
          from_key = normalize_text from_name;
          to_key = normalize_text to_name
      in case index_of from_key normalized_stops of
           None \<Rightarrow> None
         | Some start \<Rightarrow>
             (case find (\<lambda>end. normalized_stops ! end = to_key) [start + 1..<length normalized_stops] of
                None \<Rightarrow> None
              | Some end \<Rightarrow> Some (start, end)))"

definition find_stop_index :: "string list \<Rightarrow> string \<Rightarrow> nat option" where
  "find_stop_index sts stop_name = index_of (normalize_text stop_name) (map normalize_text sts)"

definition segment_duration :: "RouteRow \<Rightarrow> nat \<Rightarrow> nat \<Rightarrow> int" where
  "segment_duration route start_idx end_idx =
     (let total_edges = max 1 (int (length (stops route)) - 1);
          segment_edges = max 1 (int end_idx - int start_idx)
      in max 5 (py_round (fmul (float_of_int (duration_minutes route))
                               (int_truediv segment_edges total_edges))))"

section \<open>Direct routes\<close>

record payload =
  p_bus_number :: string
  p_departure_time :: string
  p_duration_minutes :: int
  p_stops :: "string list"

text \<open>A resolved name that Python's \<open>not\<close> takes for false: \<open>None\<close> or the empty string.\<close>

definition falsy :: "string option \<Rightarrow> bool" where
  "falsy r = (case r of None \<Rightarrow> True | Some s \<Rightarrow> s = [])"

definition direct_payload :: "RouteRow \<Rightarrow> nat \<Rightarrow> nat \<Rightarrow> payload" where
  "direct_payload route start_idx end_idx =
     \<lparr>p_bus_number = bus_number route,
      p_departure_time = departure_time route,
      p_duration_minutes = duration_minutes route,
      p_stops = slice (stops route) start_idx (end_idx + 1)\<rparr>"

definition direct_key :: "int option \<Rightarrow> RouteRow \<Rightarrow> int \<times> int \<times> string" where
  "direct_key after_minutes route =
     (case after_minutes of
        Some am \<Rightarrow> (departure_minutes route - am, duration_minutes route, route_id route)
      | None \<Rightarrow> (duration_minutes route, departure_minutes route, route_id route))"

text \<open>One round of the loop of \<open>find_route\<close>; \<open>None\<close> is its \<open>continue\<close>.\<close>

definition route_match ::
  "string \<Rightarrow> string \<Rightarrow> int option \<Rightarrow> RouteRow \<Rightarrow> ((int \<times> int \<times> string) \<times> payload) option" where
  "route_match resolved_from resolved_to after_minutes route =
     (case route_leg (stops route) resolved_from resolved_to of
        None \<Rightarrow> None
      | Some (start_idx, end_idx) \<Rightarrow>
          if (case after_minutes of None \<Rightarrow> False | Some am \<Rightarrow> departure_minutes route < am)
          then None
          else Some (direct_key after_minutes route, direct_payload route start_idx end_idx))"

text \<open>
  \<open>matches.sort(key=...)\<close> is a stable sort, as \<open>sort_key\<close> is; \<open>matches[0]\<close> is
  the first match with the least key.
\<close>

definition find_route :: "TransportAgent \<Rightarrow> string \<Rightarrow> string \<Rightarrow> string \<Rightarrow> payload option" where
  "find_route ag from_text to_text after_time =
     (let resolved_from = resolve_stop ag from_text;
          resolved_to = resolve_stop ag to_text
      in if falsy resolved_from \<or> falsy resolved_to then None
         else let after_minutes = parse_time after_time;
                  matches = List.map_filter
                              (route_match (the resolved_from) (the resolved_to) after_minutes)
                              (routes ag)
              in if matches = [] then None else Some (snd (hd (sort_key fst matches))))"

section \<open>Itineraries with one transfer\<close>

record leg =
  leg_transfer_stop :: string
  leg_bus_number :: string
  leg_departure_time :: string
  leg_departure_minutes :: int
  leg_duration_minutes :: int
  leg_stops :: "string list"

definition first_leg :: "RouteRow \<Rightarrow> nat \<Rightarrow> nat \<Rightarrow> leg" where
  "first_leg route start_idx transfer_idx =
     \<lparr>leg_transfer_stop = stops route ! transfer_idx,
      leg_bus_number = bus_number route,
      leg_departure_time = departure_time route,
      leg_departure_minutes = departure_minutes route,
      leg_duration_minutes = segment_duration route start_idx transfer_idx,
      leg_stops = slice (stops route) start_idx (transfer_idx + 1)\<rparr>"

definition second_leg :: "RouteRow \<Rightarrow> nat \<Rightarrow> nat \<Rightarrow> leg" where
  "second_leg route transfer_idx end_idx =
     \<lparr>leg_transfer_stop = stops route ! transfer_idx,
      leg_bus_number = bus_number route,
      leg_departure_time = departure_time route,
      leg_departure_minutes = departure_minutes route,
      leg_duration_minutes = segment_duration route transfer_idx end_idx,
      leg_stops = slice (stops route) transfer_idx (end_idx + 1)\<rparr>"

text \<open>The first legs that one route adds: only a route that passes the time filter.\<close>

definition first_legs_of :: "string \<Rightarrow> int option \<Rightarrow> RouteRow \<Rightarrow> leg list" where
  "first_legs_of resolved_from after_minutes route =
     (case find_stop_index (stops route) resolved_from of
        None \<Rightarrow> []
      | Some start_idx \<Rightarrow>
          if (case after_minutes of None \<Rightarrow> True | Some am \<Rightarrow> am \<le> departure_minutes route)
          then map (first_leg route start_idx) [start_idx + 1..<length (stops route)]
          else [])"

text \<open>The second legs that one route adds, whatever its departure time.\<close>

definition second_legs_of :: "string \<Rightarrow> RouteRow \<Rightarrow> leg list" where
  "second_legs_of resolved_to route =
     (case find_stop_index (stops route) resolved_to of
        None \<Rightarrow> []
      | Some end_idx \<Rightarrow> map (\<lambda>transfer_idx. second_leg route transfer_idx end_idx) [0..<end_idx])"

text \<open>Filing a second leg under its normalized transfer stop.\<close>

definition add_second_leg :: "leg \<Rightarrow> (string \<rightharpoonup> leg list) \<Rightarrow> (string \<rightharpoonup> leg list)" where
  "add_second_leg leg_payload by_transfer =
     (let transfer_key = normalize_text (leg_transfer_stop leg_payload)
      in case by_transfer transfer_key of
           None \<Rightarrow> by_transfer(transfer_key \<mapsto> [leg_payload])
         | Some legs \<Rightarrow> by_transfer(transfer_key \<mapsto> legs @ [leg_payload]))"

text \<open>The loop over the routes; the state is \<open>(first_legs, second_legs_by_transfer)\<close>.\<close>

definition collect_legs ::
  "RouteRow list \<Rightarrow> string \<Rightarrow> string \<Rightarrow> int option \<Rightarrow> leg list \<times> (string \<rightharpoonup> leg list)" where
  "collect_legs rs resolved_from resolved_to after_minutes =
     fold (\<lambda>route (first_legs, by_transfer).
             (first_legs @ first_legs_of resolved_from after_minutes route,
              fold add_second_leg (second_legs_of resolved_to route) by_transfer))
       rs ([], Map.empty)"

text \<open>\<open>_best_second_leg_for_first_leg\<close>: the first of the candidates in sorted order.\<close>

definition second_leg_key :: "int \<Rightarrow> leg \<Rightarrow> int \<times> int \<times> string" where
  "second_leg_key first_departure l =
     (let wait = leg_departure_minutes l - first_departure
      in (if wait < 0 then wait + 24 * 60 else wait, leg_duration_minutes l, leg_bus_number l))"

definition best_second_leg_for_first_leg :: "leg list \<Rightarrow> int \<Rightarrow> leg" where
  "best_second_leg_for_first_leg candidates first_departure =
     hd (sort_key (second_leg_key first_departure) candidates)"

record plan =
  plan_type :: string
  plan_from_stop :: string
  plan_to_stop :: string
  plan_transfer_stop :: string
  plan_leg1 :: payload
  plan_leg2 :: payload
  plan_total_duration_minutes :: int

definition leg_payload_of :: "leg \<Rightarrow> payload" where
  "leg_payload_of l =
     \<lparr>p_bus_number = leg_bus_number l,
      p_departure_time = leg_departure_time l,
      p_duration_minutes = leg_duration_minutes l,
      p_stops = leg_stops l\<rparr>"

type_synonym plan_key = "int \<times> int \<times> int \<times> string"

text \<open>\<open>second_legs_by_transfer.get(transfer_key, [])\<close>.\<close>

definition legs_at :: "(string \<rightharpoonup> leg list) \<Rightarrow> string \<Rightarrow> leg list" where
  "legs_at by_transfer transfer_key =
     (case by_transfer transfer_key of None \<Rightarrow> [] | Some legs \<Rightarrow> legs)"

text \<open>
  The test that rejects a pairing: both legs start at the same stop and end at the
  same stop. The stop lists of legs are slices with at least two stops, so \<open>stops[0]\<close>
  and \<open>stops[-1]\<close> exist.
\<close>

definition same_trip :: "leg \<Rightarrow> leg \<Rightarrow> bool" where
  "same_trip leg1 leg2 =
     (normalize_text (hd (leg_stops leg1)) = normalize_text (hd (leg_stops leg2))
      \<and> normalize_text (last (leg_stops leg1)) = normalize_text (last (leg_stops leg2)))"

text \<open>The sort key and the payload of a pairing.\<close>

definition plan_of :: "string \<Rightarrow> string \<Rightarrow> leg \<Rightarrow> leg \<Rightarrow> plan_key \<times> plan" where
  "plan_of resolved_from resolved_to leg1 leg2 =
     (let wait_minutes = max 0 (leg_departure_minutes leg2 - leg_departure_minutes leg1);
          total_duration = leg_duration_minutes leg1 + leg_duration_minutes leg2 + wait_minutes
      in ((total_duration, leg_departure_minutes leg1, leg_departure_minutes leg2,
           leg_bus_number leg1),
          \<lparr>plan_type = ''transfer'',
           plan_from_stop = resolved_from,
           plan_to_stop = resolved_to,
           plan_transfer_stop = leg_transfer_stop leg1,
           plan_leg1 = leg_payload_of leg1,
           plan_leg2 = leg_payload_of leg2,
           plan_total_duration_minutes = total_duration\<rparr>))"

text \<open>One round of the loop over the first legs; the state is \<open>best_plan\<close>.\<close>

definition consider_leg ::
  "string \<Rightarrow> string \<Rightarrow> (string \<rightharpoonup> leg list) \<Rightarrow> leg \<Rightarrow> (plan_key \<times> plan) option
   \<Rightarrow> (plan_key \<times> plan) option" where
  "consider_leg resolved_from resolved_to by_transfer leg1 best_plan =
     (let transfer_key = normalize_text (leg_transfer_stop leg1);
          leg2_candidates = legs_at by_transfer transfer_key
      in if leg2_candidates = [] then best_plan
         else let leg2 = best_second_leg_for_first_leg leg2_candidates (leg_departure_minutes leg1)
              in if same_trip leg1 leg2 then best_plan
                 else let (sort_key, payload) = plan_of resolved_from resolved_to leg1 leg2
                      in case best_plan of
                           None \<Rightarrow> Some (sort_key, payload)
                         | Some (best_key, best_payload) \<Rightarrow>
                             if sort_key < best_key then Some (sort_key, payload) else best_plan)"

definition suggest_alternative :: "TransportAgent \<Rightarrow> string \<Rightarrow> string \<Rightarrow> string \<Rightarrow> plan option" where
  "suggest_alternative ag from_text to_text after_time =
     (let resolved_from = resolve_stop ag from_text;
          resolved_to = resolve_stop ag to_text
      in if falsy resolved_from \<or> falsy resolved_to then None
         else let after_minutes = parse_time after_time;
                  (first_legs, by_transfer) =
                     collect_legs (routes ag) (the resolved_from) (the resolved_to) after_minutes;
                  best_plan = fold (consider_leg (the resolved_from) (the resolved_to) by_transfer)
                                first_legs None
              in map_option snd best_plan)"

section \<open>Example timetables\<close>

definition row_abc :: RouteRow where
  "row_abc =
     \<lparr>route_id = ''R1'', from_stop = ''A'', to_stop = ''C'', bus_number = ''10'',
      departure_time = ''08:00'', departure_minutes = 480, duration_minutes = 30,
      stops = [''A'', ''B'', ''C'']\<rparr>"

definition row_ac :: RouteRow where
  "row_ac =
     \<lparr>route_id = ''R2'', from_stop = ''A'', to_stop = ''C'', bus_number = ''11'',
      departure_time = ''09:30'', departure_minutes = 570, duration_minutes = 45,
      stops = [''A'', ''C'']\<rparr>"

definition row_cd :: RouteRow where
  "row_cd =
     \<lparr>route_id = ''R3'', from_stop = ''C'', to_stop = ''D'', bus_number = ''12'',
      departure_time = ''08:20'', departure_minutes = 500, duration_minutes = 15,
      stops = [''C'', ''D'']\<rparr>"

definition direct_agent :: TransportAgent where
  "direct_agent = transport_agent [row_abc, row_ac]"

definition transfer_agent :: TransportAgent where
  "transfer_agent = transport_agent [row_abc, row_cd]"

definition row_late_ab :: RouteRow where
  "row_late_ab =
     \<lparr>route_id = ''R4'', from_stop = ''A'', to_stop = ''B'', bus_number = ''20'',
      departure_time = ''10:00'', departure_minutes = 600, duration_minutes = 20,
      stops = [''A'', ''B'']\<rparr>"

definition row_early_bc :: RouteRow where
  "row_early_bc =
     \<lparr>route_id = ''R5'', from_stop = ''B'', to_stop = ''C'', bus_number = ''21'',
      departure_time = ''08:00'', departure_minutes = 480, duration_minutes = 15,
      stops = [''B'', ''C'']\<rparr>"

definition late_agent :: TransportAgent where
  "late_agent = transport_agent [row_late_ab, row_early_bc]"

definition row_airports :: RouteRow where
  "row_airports =
     \<lparr>route_id = ''R6'', from_stop = ''Airport'', to_stop = ''Amausi Airport'', bus_number = ''30'',
      departure_time = ''07:00'', departure_minutes = 420, duration_minutes = 25,
      stops = [''Airport'', ''Charbagh'', ''Amausi Airport'']\<rparr>"

definition airport_agent :: TransportAgent where
  "airport_agent = transport_agent [row_airports]"

definition row_eleven :: RouteRow where
  "row_eleven =
     \<lparr>route_id = ''R7'', from_stop = ''S0'', to_stop = ''S10'', bus_number = ''40'',
      departure_time = ''06:00'', departure_minutes = 360, duration_minutes = 45,
      stops = [''S0'', ''S1'', ''S2'', ''S3'', ''S4'', ''S5'', ''S6'', ''S7'', ''S8'', ''S9'', ''S10'']\<rparr>"

section \<open>Notions used in the proofs\<close>

text \<open>
  The formula of the specification,
  \<open>max(5, round(durationMinutes \<times> segmentEdges / totalEdges))\<close>, over exact rationals.
\<close>

definition segment_duration_exact :: "RouteRow \<Rightarrow> nat \<Rightarrow> nat \<Rightarrow> int" where
  "segment_duration_exact route start_idx end_idx =
     (let total_edges = max 1 (int (length (stops route)) - 1);
          segment_edges = max 1 (int end_idx - int start_idx)
      in max 5 (round_half_even (of_int (duration_minutes route) * of_int segment_edges
                                 / of_int total_edges)))"

text \<open>A pairing that the loop may keep as the best plan.\<close>

definition pairing ::
  "string \<Rightarrow> string \<Rightarrow> (string \<rightharpoonup> leg list) \<Rightarrow> leg \<Rightarrow> leg \<Rightarrow> plan_key \<times> plan \<Rightarrow> bool" where
  "pairing rf rt by_transfer leg1 leg2 kp =
     (legs_at by_transfer (normalize_text (leg_transfer_stop leg1)) \<noteq> []
      \<and> leg2 = best_second_leg_for_first_leg
                 (legs_at by_transfer (normalize_text (leg_transfer_stop leg1)))
                 (leg_departure_minutes leg1)
      \<and> \<not> same_trip leg1 leg2
      \<and> kp = plan_of rf rt leg1 leg2)"

text \<open>The stop list holds one spelling for each normalized name.\<close>

definition stop_list_inv :: "string list \<times> string set \<Rightarrow> bool" where
  "stop_list_inv st = (snd st = normalize_text ` set (fst st) \<and> distinct (map normalize_text (fst st)))"

text \<open>The length that the inner loop stores at position \<open>j\<close>.\<close>

definition match_len :: "(nat \<Rightarrow> nat) \<Rightarrow> nat \<Rightarrow> nat" where
  "match_len j2len j = (if j = 0 then 0 else j2len (j - 1)) + 1"

text \<open>
  The length of the run of characters with an entry in \<open>b2j\<close> that ends at
  position \<open>i\<close> of \<open>a\<close>.
\<close>

fun run_len :: "string \<Rightarrow> nat \<Rightarrow> nat" where
  "run_len a 0 = (if b2j a (a ! 0) = [] then 0 else 1)"
| "run_len a (Suc i) = (if b2j a (a ! Suc i) = [] then 0 else run_len a i + 1)"

text \<open>
  The state of \<open>find_longest_match\<close> on \<open>a\<close> against itself, over the whole of both
  strings, after the rows below \<open>m\<close>: the best match lies on the diagonal and is as long
  as every run seen so far.
\<close>

definition row_inv :: "string \<Rightarrow> nat \<Rightarrow> (nat \<Rightarrow> nat) \<times> match \<Rightarrow> bool" where
  "row_inv a m st =
     (case st of (j2len, (bi, bj, bs)) \<Rightarrow>
        bi = bj \<and> bi + bs \<le> m \<and> (\<forall>i<m. run_len a i \<le> bs)
        \<and> (\<forall>j<length a. j2len j \<le> run_len a j)
        \<and> (if m = 0 then (\<forall>j. j2len j = 0)
            else (\<forall>j. j2len j \<le> run_len a (m - 1)) \<and> j2len (m - 1) = run_len a (m - 1)))"

section \<open>Facts about the list primitives and legs\<close>

lemma parse_time_empty: "parse_time [] = None"
  by (simp add: parse_time_def strip_def)

lemma hd_sort_key_min:
  assumes "xs \<noteq> []"
  shows "hd (sort_key f xs) \<in> set xs \<and> (\<forall>x\<in>set xs. f (hd (sort_key f xs)) \<le> f x)"
proof -
  obtain y ys where s: "sort_key f xs = y # ys"
    using assms by (metis length_sort length_0_conv neq_Nil_conv)
  have "sorted (map f (y # ys))"
    using sorted_sort_key [of f xs] s by simp
  then have "\<forall>x\<in>set (y # ys). f y \<le> f x" by auto
  moreover have "set (y # ys) = set xs"
    using set_sort [of f xs] s by simp
  ultimately show ?thesis using s by auto
qed

lemma index_of_Some:
  "index_of x xs = Some i \<Longrightarrow> i < length xs \<and> xs ! i = x \<and> (\<forall>j<i. xs ! j \<noteq> x)"
proof (induction xs arbitrary: i)
  case Nil
  then show ?case by simp
next
  case (Cons y ys)
  show ?case
  proof (cases "y = x")
    case True
    with Cons.prems show ?thesis by simp
  next
    case False
    with Cons.prems obtain k where k: "index_of x ys = Some k" "i = Suc k" by auto
    from Cons.IH [OF k(1)] False k(2) show ?thesis
      by (auto simp: nth_Cons split: nat.splits)
  qed
qed

lemma index_of_None: "index_of x xs = None \<longleftrightarrow> x \<notin> set xs"
  by (induction xs) auto

lemma slice_props:
  assumes "s \<le> e" and "e < length xs"
  shows "slice xs s (e + 1) = map (\<lambda>i. xs ! i) [s..<e + 1]"
    and "slice xs s (e + 1) \<noteq> []"
    and "hd (slice xs s (e + 1)) = xs ! s"
    and "last (slice xs s (e + 1)) = xs ! e"
    and "length (slice xs s (e + 1)) = e + 1 - s"
proof -
  have "length (slice xs s (e + 1)) = length (map (\<lambda>i. xs ! i) [s..<e + 1])"
    using assms by (simp add: slice_def)
  moreover have "slice xs s (e + 1) ! k = map (\<lambda>i. xs ! i) [s..<e + 1] ! k"
    if "k < length (slice xs s (e + 1))" for k
  proof -
    have k: "k < e + 1 - s" using that assms by (simp add: slice_def)
    then have "map (\<lambda>i. xs ! i) [s..<e + 1] ! k = xs ! (s + k)"
      by (rule nth_map_upt)
    moreover have "slice xs s (e + 1) ! k = xs ! (s + k)"
      using k assms by (simp add: slice_def)
    ultimately show ?thesis by simp
  qed
  ultimately show m: "slice xs s (e + 1) = map (\<lambda>i. xs ! i) [s..<e + 1]"
    by (rule nth_equalityI)
  have ne: "[s..<e + 1] \<noteq> []" using assms by simp
  show "slice xs s (e + 1) \<noteq> []" using m ne by simp
  show "hd (slice xs s (e + 1)) = xs ! s"
    using m ne assms by (simp add: hd_map upt_rec)
  show "last (slice xs s (e + 1)) = xs ! e"
    using m ne assms by (simp add: last_map)
  show "length (slice xs s (e + 1)) = e + 1 - s" using assms by (simp add: slice_def)
qed

lemma route_leg_Some:
  assumes "route_leg sts f t = Some (s, e)"
  shows "s < e \<and> e < length sts
       \<and> normalize_text (sts ! s) = normalize_text f
       \<and> normalize_text (sts ! e) = normalize_text t
       \<and> (\<forall>i<s. normalize_text (sts ! i) \<noteq> normalize_text f)
       \<and> (\<forall>j. s < j \<and> j < e \<longrightarrow> normalize_text (sts ! j) \<noteq> normalize_text t)"
proof -
  let ?ns = "map normalize_text sts"
  from assms obtain start where
    i: "index_of (normalize_text f) ?ns = Some start"
    and f: "find (\<lambda>end. ?ns ! end = normalize_text t) [start + 1..<length ?ns] = Some e"
    and se: "s = start"
    by (auto simp: route_leg_def Let_def split: option.splits)
  from index_of_Some [OF i] se
  have a: "s < length sts" "normalize_text (sts ! s) = normalize_text f"
    "\<forall>j<s. normalize_text (sts ! j) \<noteq> normalize_text f"
    by auto
  from f obtain k where k: "k < length [start + 1..<length ?ns]"
    "?ns ! ([start + 1..<length ?ns] ! k) = normalize_text t"
    "e = [start + 1..<length ?ns] ! k"
    "\<forall>j<k. ?ns ! ([start + 1..<length ?ns] ! j) \<noteq> normalize_text t"
    unfolding find_Some_iff by blast
  have e: "e = s + 1 + k" "e < length sts" using k(1,3) se by auto
  have "normalize_text (sts ! e) = normalize_text t" using k(2,3) e by simp
  moreover have "normalize_text (sts ! j) \<noteq> normalize_text t" if "s < j" "j < e" for j
  proof -
    have "j - (s + 1) < k" using that e by linarith
    with k(4) have "?ns ! ([start + 1..<length ?ns] ! (j - (s + 1))) \<noteq> normalize_text t" by blast
    moreover have "[start + 1..<length ?ns] ! (j - (s + 1)) = j"
      using that e se by simp
    ultimately show ?thesis using that e by simp
  qed
  ultimately show ?thesis using a e by auto
qed

lemma route_leg_None:
  assumes "route_leg sts f t = None"
  shows "\<not> (\<exists>s e. s < e \<and> e < length sts \<and> normalize_text (sts ! s) = normalize_text f
              \<and> (\<forall>i<s. normalize_text (sts ! i) \<noteq> normalize_text f)
              \<and> normalize_text (sts ! e) = normalize_text t)"
proof
  let ?ns = "map normalize_text sts"
  assume "\<exists>s e. s < e \<and> e < length sts \<and> normalize_text (sts ! s) = normalize_text f
              \<and> (\<forall>i<s. normalize_text (sts ! i) \<noteq> normalize_text f)
              \<and> normalize_text (sts ! e) = normalize_text t"
  then obtain s e where h: "s < e" "e < length sts" "normalize_text (sts ! s) = normalize_text f"
    "\<forall>i<s. normalize_text (sts ! i) \<noteq> normalize_text f" "normalize_text (sts ! e) = normalize_text t"
    by blast
  have "normalize_text f \<in> set ?ns" using h(1,2,3) by (metis (no_types, lifting) length_map less_trans nth_map nth_mem)
  then obtain start where i: "index_of (normalize_text f) ?ns = Some start"
    using index_of_None [of "normalize_text f" ?ns] by auto
  from index_of_Some [OF i] have st: "start < length sts" "normalize_text (sts ! start) = normalize_text f"
    "\<forall>j<start. normalize_text (sts ! j) \<noteq> normalize_text f" by auto
  have "start = s"
    using st h by (metis less_trans linorder_neqE_nat)
  with assms i have "find (\<lambda>end. ?ns ! end = normalize_text t) [start + 1..<length ?ns] = None"
    by (auto simp: route_leg_def Let_def split: option.splits)
  then have "\<forall>x\<in>set [start + 1..<length ?ns]. ?ns ! x \<noteq> normalize_text t"
    unfolding find_None_iff by blast
  moreover have "e \<in> set [start + 1..<length ?ns]" using h \<open>start = s\<close> by simp
  ultimately show False using h by simp
qed

section \<open>What \<open>find_route\<close> returns\<close>

lemma in_set_map_filter:
  "y \<in> set (List.map_filter f xs) \<longleftrightarrow> (\<exists>x\<in>set xs. f x = Some y)"
  by (induction xs) (auto split: option.splits)

lemma falsy_iff: "\<not> falsy r \<longleftrightarrow> (\<exists>s. r = Some s \<and> s \<noteq> [])"
  by (cases r) (simp_all add: falsy_def)

lemma route_match_Some:
  "route_match rf rt am route = Some (k, p) \<longleftrightarrow>
     (\<exists>s e. route_leg (stops route) rf rt = Some (s, e)
        \<and> (case am of None \<Rightarrow> True | Some m \<Rightarrow> m \<le> departure_minutes route)
        \<and> k = direct_key am route \<and> p = direct_payload route s e)"
  by (auto simp: route_match_def split: option.splits)

lemma find_route_Some:
  assumes "find_route ag from_text to_text after_time = Some p"
  shows "\<exists>rf rt. resolve_stop ag from_text = Some rf \<and> resolve_stop ag to_text = Some rt
     \<and> (\<exists>route\<in>set (routes ag). \<exists>k.
           route_match rf rt (parse_time after_time) route = Some (k, p)
           \<and> (\<forall>r'\<in>set (routes ag). \<forall>k' p'.
                 route_match rf rt (parse_time after_time) r' = Some (k', p') \<longrightarrow> k \<le> k'))"
proof -
  from assms have nf: "\<not> falsy (resolve_stop ag from_text)" "\<not> falsy (resolve_stop ag to_text)"
    by (auto simp: find_route_def Let_def split: if_splits)
  then obtain rf rt where r: "resolve_stop ag from_text = Some rf" "resolve_stop ag to_text = Some rt"
    unfolding falsy_iff by blast
  define ms where "ms = List.map_filter (route_match rf rt (parse_time after_time)) (routes ag)"
  from assms nf r have ne: "ms \<noteq> []" and p: "p = snd (hd (sort_key fst ms))"
    by (auto simp: find_route_def Let_def ms_def split: if_splits)
  from hd_sort_key_min [OF ne, of fst]
  have m: "hd (sort_key fst ms) \<in> set ms" "\<forall>x\<in>set ms. fst (hd (sort_key fst ms)) \<le> fst x"
    by auto
  obtain k where kp: "hd (sort_key fst ms) = (k, p)" using p by (cases "hd (sort_key fst ms)") auto
  have mem: "x \<in> set ms \<longleftrightarrow> (\<exists>route\<in>set (routes ag). route_match rf rt (parse_time after_time) route = Some x)" for x
    by (simp add: ms_def in_set_map_filter)
  from m(1) kp mem obtain route where ro: "route \<in> set (routes ag)"
    "route_match rf rt (parse_time after_time) route = Some (k, p)" by auto
  have "k \<le> k'" if "r' \<in> set (routes ag)" "route_match rf rt (parse_time after_time) r' = Some (k', p')" for r' k' p'
  proof -
    have "(k', p') \<in> set ms" using that mem by blast
    with m(2) kp show ?thesis by fastforce
  qed
  with r ro show ?thesis by blast
qed

lemma find_route_exists:
  assumes "resolve_stop ag from_text = Some rf" "rf \<noteq> []"
    and "resolve_stop ag to_text = Some rt" "rt \<noteq> []"
    and "route \<in> set (routes ag)" "route_match rf rt (parse_time after_time) route = Some kp"
  shows "\<exists>p. find_route ag from_text to_text after_time = Some p"
proof -
  have "kp \<in> set (List.map_filter (route_match rf rt (parse_time after_time)) (routes ag))"
    using assms(5,6) by (auto simp: in_set_map_filter)
  then have "List.map_filter (route_match rf rt (parse_time after_time)) (routes ag) \<noteq> []"
    by auto
  then show ?thesis using assms(1-4) by (simp add: find_route_def Let_def falsy_def)
qed

text \<open>
  Claim C1. When \<open>find_route\<close> returns a payload, its stops are the contiguous
  segment \<open>stops[s..e]\<close> of one route of the timetable, with \<open>s < e\<close>; the segment
  starts at a stop equal to the resolved \<open>from\<close> stop and ends at a stop equal to the
  resolved \<open>to\<close> stop (equal after normalization); \<open>s\<close> is the first position of the
  \<open>from\<close> stop in the route and \<open>e\<close> the first position of the \<open>to\<close> stop after \<open>s\<close>.
\<close>

theorem find_route_stops_segment:
  assumes "find_route ag from_text to_text after_time = Some p"
  shows "\<exists>rf rt. resolve_stop ag from_text = Some rf \<and> resolve_stop ag to_text = Some rt
     \<and> (\<exists>route\<in>set (routes ag). \<exists>s e. s < e \<and> e < length (stops route)
          \<and> p_stops p = map (\<lambda>i. stops route ! i) [s..<e + 1]
          \<and> hd (p_stops p) = stops route ! s \<and> last (p_stops p) = stops route ! e
          \<and> normalize_text (hd (p_stops p)) = normalize_text rf
          \<and> normalize_text (last (p_stops p)) = normalize_text rt
          \<and> (\<forall>i<s. normalize_text (stops route ! i) \<noteq> normalize_text rf)
          \<and> (\<forall>j. s < j \<and> j < e \<longrightarrow> normalize_text (stops route ! j) \<noteq> normalize_text rt))"
proof -
  from find_route_Some [OF assms] obtain rf rt route k where
    r: "resolve_stop ag from_text = Some rf" "resolve_stop ag to_text = Some rt"
    and ro: "route \<in> set (routes ag)"
    and m: "route_match rf rt (parse_time after_time) route = Some (k, p)"
    by blast
  from m obtain s e where l: "route_leg (stops route) rf rt = Some (s, e)"
    and p: "p = direct_payload route s e"
    unfolding route_match_Some by blast
  from route_leg_Some [OF l] have b: "s < e" "e < length (stops route)"
    and n: "normalize_text (stops route ! s) = normalize_text rf"
      "normalize_text (stops route ! e) = normalize_text rt"
      "\<forall>i<s. normalize_text (stops route ! i) \<noteq> normalize_text rf"
      "\<forall>j. s < j \<and> j < e \<longrightarrow> normalize_text (stops route ! j) \<noteq> normalize_text rt"
    by auto
  have se: "s \<le> e" using b by simp
  have st: "p_stops p = slice (stops route) s (e + 1)"
    using p by (simp add: direct_payload_def)
  note sp = slice_props [OF se b(2)]
  have "p_stops p = map (\<lambda>i. stops route ! i) [s..<e + 1]"
    "hd (p_stops p) = stops route ! s" "last (p_stops p) = stops route ! e"
    using st sp(1,3,4) by simp_all
  with b n have "\<exists>s e. s < e \<and> e < length (stops route)
          \<and> p_stops p = map (\<lambda>i. stops route ! i) [s..<e + 1]
          \<and> hd (p_stops p) = stops route ! s \<and> last (p_stops p) = stops route ! e
          \<and> normalize_text (hd (p_stops p)) = normalize_text rf
          \<and> normalize_text (last (p_stops p)) = normalize_text rt
          \<and> (\<forall>i<s. normalize_text (stops route ! i) \<noteq> normalize_text rf)
          \<and> (\<forall>j. s < j \<and> j < e \<longrightarrow> normalize_text (stops route ! j) \<noteq> normalize_text rt)"
    by (intro exI [of _ s] exI [of _ e]) simp
  with r ro show ?thesis by blast
qed

theorem find_route_stops_segment_witness:
  "find_route direct_agent ''A'' ''C'' [] = Some (direct_payload row_abc 0 2)
   \<and> p_stops (direct_payload row_abc 0 2) = [''A'', ''B'', ''C'']
   \<and> (\<exists>rf rt. resolve_stop direct_agent ''A'' = Some rf \<and> resolve_stop direct_agent ''C'' = Some rt
     \<and> (\<exists>route\<in>set (routes direct_agent). \<exists>s e. s < e \<and> e < length (stops route)
          \<and> p_stops (direct_payload row_abc 0 2) = map (\<lambda>i. stops route ! i) [s..<e + 1]
          \<and> hd (p_stops (direct_payload row_abc 0 2)) = stops route ! s
          \<and> last (p_stops (direct_payload row_abc 0 2)) = stops route ! e
          \<and> normalize_text (hd (p_stops (direct_payload row_abc 0 2))) = normalize_text rf
          \<and> normalize_text (last (p_stops (direct_payload row_abc 0 2))) = normalize_text rt
          \<and> (\<forall>i<s. normalize_text (stops route ! i) \<noteq> normalize_text rf)
          \<and> (\<forall>j. s < j \<and> j < e \<longrightarrow> normalize_text (stops route ! j) \<noteq> normalize_text rt)))"
proof -
  have h: "find_route direct_agent ''A'' ''C'' [] = Some (direct_payload row_abc 0 2)"
    by code_simp
  have s: "p_stops (direct_payload row_abc 0 2) = [''A'', ''B'', ''C'']"
    by code_simp
  from h s find_route_stops_segment [OF h] show ?thesis
    by (intro conjI)
qed

text \<open>
  Claim C3. When \<open>after_time\<close> parses to \<open>am\<close> minutes, a route that departs before
  \<open>am\<close> is never a match, and the payload that \<open>find_route\<close> returns is that of a
  route of the timetable that departs at \<open>am\<close> or later.
\<close>

theorem find_route_respects_filter:
  assumes "parse_time after_time = Some am"
    and "find_route ag from_text to_text after_time = Some p"
  shows "(\<forall>rf rt route. departure_minutes route < am \<longrightarrow> route_match rf rt (Some am) route = None)
       \<and> (\<exists>route\<in>set (routes ag). \<exists>rf rt s e.
             route_leg (stops route) rf rt = Some (s, e) \<and> p = direct_payload route s e
             \<and> p_departure_time p = departure_time route
             \<and> am \<le> departure_minutes route)"
proof
  show "\<forall>rf rt route. departure_minutes route < am \<longrightarrow> route_match rf rt (Some am) route = None"
    by (simp add: route_match_def split: option.splits)
next
  from find_route_Some [OF assms(2)] obtain rf rt route k where
    ro: "route \<in> set (routes ag)"
    and m: "route_match rf rt (Some am) route = Some (k, p)"
    using assms(1) by auto
  from m obtain s e where "route_leg (stops route) rf rt = Some (s, e)"
    "p = direct_payload route s e" "am \<le> departure_minutes route"
    unfolding route_match_Some by auto
  moreover from this have "p_departure_time p = departure_time route"
    by (simp add: direct_payload_def)
  ultimately show "\<exists>route\<in>set (routes ag). \<exists>rf rt s e.
             route_leg (stops route) rf rt = Some (s, e) \<and> p = direct_payload route s e
             \<and> p_departure_time p = departure_time route
             \<and> am \<le> departure_minutes route"
    using ro by blast
qed

theorem find_route_respects_filter_witness:
  "parse_time ''09:00'' = Some 540
   \<and> find_route direct_agent ''A'' ''C'' ''09:00''
       = Some \<lparr>p_bus_number = ''11'', p_departure_time = ''09:30'',
               p_duration_minutes = 45, p_stops = [''A'', ''C'']\<rparr>
   \<and> route_match ''A'' ''C'' (Some 540) row_abc = None
   \<and> (\<exists>route\<in>set (routes direct_agent). departure_time route = ''09:30''
         \<and> 540 \<le> departure_minutes route)"
proof -
  have t: "parse_time ''09:00'' = Some 540"
    by code_simp
  have h: "find_route direct_agent ''A'' ''C'' ''09:00''
       = Some \<lparr>p_bus_number = ''11'', p_departure_time = ''09:30'',
               p_duration_minutes = 45, p_stops = [''A'', ''C'']\<rparr>"
    by code_simp
  have d: "departure_minutes row_abc < 540"
    by (simp add: row_abc_def)
  from find_route_respects_filter [OF t h] d
  have "route_match ''A'' ''C'' (Some 540) row_abc = None"
    and "\<exists>route\<in>set (routes direct_agent). departure_time route = ''09:30''
         \<and> 540 \<le> departure_minutes route"
    by auto
  with t h show ?thesis by blast
qed

text \<open>
  Claim C4. Without a time filter, when both names resolve and some route has a leg
  between them, \<open>find_route\<close> returns the payload of a route with a leg whose key
  \<open>(duration_minutes, departure_minutes, route_id)\<close> is least, in the lexicographic
  order, among the routes with a leg. The witness is the timetable of two routes from
  \<open>A\<close> to \<open>C\<close> with durations 30 and 45: the route of 30 minutes is returned.
\<close>

theorem find_route_shortest_without_filter:
  assumes "parse_time after_time = None"
    and "resolve_stop ag from_text = Some rf" and "rf \<noteq> []"
    and "resolve_stop ag to_text = Some rt" and "rt \<noteq> []"
    and "\<exists>route\<in>set (routes ag). route_leg (stops route) rf rt \<noteq> None"
  shows "\<exists>route\<in>set (routes ag). \<exists>s e. route_leg (stops route) rf rt = Some (s, e)
           \<and> find_route ag from_text to_text after_time = Some (direct_payload route s e)
           \<and> (\<forall>r'\<in>set (routes ag). route_leg (stops r') rf rt \<noteq> None \<longrightarrow>
                (duration_minutes route, departure_minutes route, route_id route)
                \<le> (duration_minutes r', departure_minutes r', route_id r'))"
proof -
  from assms(6) obtain r0 s0 e0 where r0: "r0 \<in> set (routes ag)"
    "route_leg (stops r0) rf rt = Some (s0, e0)" by auto
  then have "route_match rf rt (parse_time after_time) r0
             = Some (direct_key None r0, direct_payload r0 s0 e0)"
    using assms(1) by (simp add: route_match_def)
  from find_route_exists [OF assms(2-5) r0(1) this]
  obtain p where p: "find_route ag from_text to_text after_time = Some p" by blast
  from find_route_Some [OF p] assms(1,2,4) obtain route k where
    ro: "route \<in> set (routes ag)"
    and m: "route_match rf rt None route = Some (k, p)"
    and mn: "\<forall>r'\<in>set (routes ag). \<forall>k' p'. route_match rf rt None r' = Some (k', p') \<longrightarrow> k \<le> k'"
    by auto
  from m obtain s e where l: "route_leg (stops route) rf rt = Some (s, e)"
    and k: "k = direct_key None route" and pp: "p = direct_payload route s e"
    unfolding route_match_Some by auto
  have "(duration_minutes route, departure_minutes route, route_id route)
        \<le> (duration_minutes r', departure_minutes r', route_id r')"
    if "r' \<in> set (routes ag)" "route_leg (stops r') rf rt \<noteq> None" for r'
  proof -
    from that(2) obtain s' e' where "route_leg (stops r') rf rt = Some (s', e')" by auto
    then have "route_match rf rt None r' = Some (direct_key None r', direct_payload r' s' e')"
      by (simp add: route_match_def)
    with mn that(1) have "k \<le> direct_key None r'" by blast
    then show ?thesis using k by (simp add: direct_key_def)
  qed
  with ro l p pp show ?thesis by blast
qed

theorem find_route_shortest_without_filter_witness:
  "parse_time [] = None
   \<and> resolve_stop direct_agent ''A'' = Some ''A'' \<and> resolve_stop direct_agent ''C'' = Some ''C''
   \<and> route_leg (stops row_ac) ''A'' ''C'' \<noteq> None
   \<and> duration_minutes row_abc = 30 \<and> duration_minutes row_ac = 45
   \<and> find_route direct_agent ''A'' ''C'' [] = Some (direct_payload row_abc 0 2)
   \<and> (\<exists>route\<in>set (routes direct_agent). \<exists>s e.
         find_route direct_agent ''A'' ''C'' [] = Some (direct_payload route s e)
         \<and> (duration_minutes route, departure_minutes route, route_id route)
            \<le> (duration_minutes row_ac, departure_minutes row_ac, route_id row_ac))"
proof -
  have t: "parse_time [] = None" by (rule parse_time_empty)
  have a: "resolve_stop direct_agent ''A'' = Some ''A''" by code_simp
  have c: "resolve_stop direct_agent ''C'' = Some ''C''" by code_simp
  have l: "route_leg (stops row_ac) ''A'' ''C'' \<noteq> None" by code_simp
  have i: "row_ac \<in> set (routes direct_agent)"
    by (simp add: direct_agent_def transport_agent_def)
  have d: "duration_minutes row_abc = 30" "duration_minutes row_ac = 45"
    by (simp_all add: row_abc_def row_ac_def)
  have f: "find_route direct_agent ''A'' ''C'' [] = Some (direct_payload row_abc 0 2)"
    by code_simp
  have ex: "\<exists>route\<in>set (routes direct_agent). route_leg (stops route) ''A'' ''C'' \<noteq> None"
    using i l by blast
  from find_route_shortest_without_filter [OF t a _ c _ ex] i l
  have "\<exists>route\<in>set (routes direct_agent). \<exists>s e.
         find_route direct_agent ''A'' ''C'' [] = Some (direct_payload route s e)
         \<and> (duration_minutes route, departure_minutes route, route_id route)
            \<le> (duration_minutes row_ac, departure_minutes row_ac, route_id row_ac)"
    by fastforce
  with t a c l d f show ?thesis by blast
qed

section \<open>An unparsable time filter\<close>

text \<open>
  Claim C9. When \<open>after_time\<close> does not parse as a clock time (\<open>_parse_time\<close> catches
  the \<open>ValueError\<close> and returns \<open>None\<close>), \<open>find_route\<close> and \<open>suggest_alternative\<close>
  return exactly what they return for the empty \<open>after_time\<close>; the result is a value,
  there is no error branch.
\<close>

theorem unparsable_time_is_no_filter:
  assumes "parse_time after_time = None"
  shows "find_route ag from_text to_text after_time = find_route ag from_text to_text []
       \<and> suggest_alternative ag from_text to_text after_time
           = suggest_alternative ag from_text to_text []"
  using assms by (simp add: find_route_def suggest_alternative_def parse_time_empty Let_def)

theorem unparsable_time_is_no_filter_witness:
  "parse_time ''25:00'' = None
   \<and> find_route direct_agent ''A'' ''C'' ''25:00''
       = Some \<lparr>p_bus_number = ''10'', p_departure_time = ''08:00'',
               p_duration_minutes = 30, p_stops = [''A'', ''B'', ''C'']\<rparr>
   \<and> suggest_alternative direct_agent ''A'' ''C'' ''25:00''
       = suggest_alternative direct_agent ''A'' ''C'' []"
proof -
  have h: "parse_time ''25:00'' = None"
    by code_simp
  have r: "find_route direct_agent ''A'' ''C'' []
           = Some \<lparr>p_bus_number = ''10'', p_departure_time = ''08:00'',
                   p_duration_minutes = 30, p_stops = [''A'', ''B'', ''C'']\<rparr>"
    by code_simp
  from unparsable_time_is_no_filter [OF h, of direct_agent "''A''" "''C''"] h r
  show ?thesis by simp
qed

section \<open>Names that do not resolve\<close>

lemma threshold_pos: "0 < threshold"
  by code_simp

lemma best_match_below:
  assumes "\<forall>stop\<in>set known. score key (normalize_text stop) < bound"
    and "best_score < bound"
  shows "snd (best_match key known (best_name, best_score)) < bound"
  using assms by (induction known arbitrary: best_name best_score) (auto simp: Let_def)

lemma resolve_stop_blank: "normalize_text raw = [] \<Longrightarrow> resolve_stop ag raw = None"
  by (simp add: resolve_stop_def)

lemma resolve_stop_below:
  assumes "aliases ag (normalize_text raw) = None"
    and "stop_lookup ag (normalize_text raw) = None"
    and "\<forall>stop\<in>set (known_stops ag). score (normalize_text raw) (normalize_text stop) < threshold"
  shows "resolve_stop ag raw = None"
proof -
  have "snd (best_match (normalize_text raw) (known_stops ag) (None, 0)) < threshold"
    using best_match_below [OF assms(3) threshold_pos] .
  then show ?thesis
    using assms(1,2) by (auto simp: resolve_stop_def Let_def split: option.splits prod.splits)
qed

lemma unresolved_no_result:
  assumes "resolve_stop ag raw = None"
  shows "find_route ag raw other after_time = None"
    and "find_route ag other raw after_time = None"
    and "suggest_alternative ag raw other after_time = None"
    and "suggest_alternative ag other raw after_time = None"
  using assms by (simp_all add: find_route_def suggest_alternative_def falsy_def Let_def)

text \<open>
  Claim C8. A stop text is unresolvable when it normalizes to the empty string, or when
  it is no key of the alias table and no key of the stop lookup and its score against
  every known stop is below the threshold \<open>0.70\<close>. Then \<open>_resolve_stop\<close> returns
  \<open>None\<close>, and \<open>find_route\<close> and \<open>suggest_alternative\<close> return \<open>None\<close> whether the
  text is the \<open>from\<close> or the \<open>to\<close> argument, whatever the other arguments are.
\<close>

theorem unresolvable_stop_gives_no_result:
  assumes "normalize_text raw = []
         \<or> (aliases ag (normalize_text raw) = None \<and> stop_lookup ag (normalize_text raw) = None
            \<and> (\<forall>stop\<in>set (known_stops ag).
                  score (normalize_text raw) (normalize_text stop) < threshold))"
  shows "resolve_stop ag raw = None
       \<and> find_route ag raw other after_time = None
       \<and> find_route ag other raw after_time = None
       \<and> suggest_alternative ag raw other after_time = None
       \<and> suggest_alternative ag other raw after_time = None"
proof -
  have "resolve_stop ag raw = None"
    using assms resolve_stop_blank resolve_stop_below by blast
  then show ?thesis
    using unresolved_no_result by blast
qed

theorem unresolvable_stop_gives_no_result_witness:
  "aliases direct_agent (normalize_text ''Zoo'') = None
   \<and> stop_lookup direct_agent (normalize_text ''Zoo'') = None
   \<and> list_all (\<lambda>stop. score (normalize_text ''Zoo'') (normalize_text stop) < threshold)
        (known_stops direct_agent)
   \<and> find_route direct_agent ''Zoo'' ''C'' ''08:00'' = None
   \<and> find_route direct_agent ''A'' ''Zoo'' ''08:00'' = None
   \<and> suggest_alternative direct_agent ''Zoo'' ''C'' ''08:00'' = None
   \<and> suggest_alternative direct_agent ''A'' ''Zoo'' ''08:00'' = None
   \<and> normalize_text ''  '' = []
   \<and> find_route direct_agent ''  '' ''C'' [] = None
   \<and> suggest_alternative direct_agent ''A'' ''  '' [] = None"
proof -
  have a: "aliases direct_agent (normalize_text ''Zoo'') = None"
    by code_simp
  have l: "stop_lookup direct_agent (normalize_text ''Zoo'') = None"
    by code_simp
  have s: "list_all (\<lambda>stop. score (normalize_text ''Zoo'') (normalize_text stop) < threshold)
        (known_stops direct_agent)"
    by code_simp
  have b: "normalize_text ''  '' = []"
    by code_simp
  from s have s': "\<forall>stop\<in>set (known_stops direct_agent).
                  score (normalize_text ''Zoo'') (normalize_text stop) < threshold"
    by (simp add: list_all_iff)
  have h1: "normalize_text ''Zoo'' = []
         \<or> (aliases direct_agent (normalize_text ''Zoo'') = None
            \<and> stop_lookup direct_agent (normalize_text ''Zoo'') = None
            \<and> (\<forall>stop\<in>set (known_stops direct_agent).
                  score (normalize_text ''Zoo'') (normalize_text stop) < threshold))"
    using a l s' by blast
  have h2: "normalize_text ''  '' = []
         \<or> (aliases direct_agent (normalize_text ''  '') = None
            \<and> stop_lookup direct_agent (normalize_text ''  '') = None
            \<and> (\<forall>stop\<in>set (known_stops direct_agent).
                  score (normalize_text ''  '') (normalize_text stop) < threshold))"
    using b by blast
  from unresolvable_stop_gives_no_result [OF h1, of "''C''" "''08:00''"]
    unresolvable_stop_gives_no_result [OF h1, of "''A''" "''08:00''"]
    unresolvable_stop_gives_no_result [OF h2, of "''C''" "[]"]
    unresolvable_stop_gives_no_result [OF h2, of "''A''" "[]"]
    a l s b
  show ?thesis by blast
qed

section \<open>What \<open>suggest_alternative\<close> returns\<close>

lemma first_legs_of_mem:
  "l \<in> set (first_legs_of rf am route) \<longleftrightarrow>
     (\<exists>s t. find_stop_index (stops route) rf = Some s
        \<and> (case am of None \<Rightarrow> True | Some m \<Rightarrow> m \<le> departure_minutes route)
        \<and> s < t \<and> t < length (stops route) \<and> l = first_leg route s t)"
proof (cases "find_stop_index (stops route) rf")
  case None
  then show ?thesis by (simp add: first_legs_of_def)
next
  case (Some s)
  then show ?thesis by (cases am) (auto simp: first_legs_of_def Suc_le_eq)
qed

lemma second_legs_of_mem:
  "l \<in> set (second_legs_of rt route) \<longleftrightarrow>
     (\<exists>u e. find_stop_index (stops route) rt = Some e \<and> u < e \<and> l = second_leg route u e)"
proof (cases "find_stop_index (stops route) rt")
  case None
  then show ?thesis by (simp add: second_legs_of_def)
next
  case (Some e)
  then show ?thesis by (auto simp: second_legs_of_def)
qed

lemma find_stop_index_Some:
  "find_stop_index sts name = Some i \<Longrightarrow>
     i < length sts \<and> normalize_text (sts ! i) = normalize_text name
     \<and> (\<forall>j<i. normalize_text (sts ! j) \<noteq> normalize_text name)"
  using index_of_Some [of "normalize_text name" "map normalize_text sts" i]
  by (auto simp: find_stop_index_def)

lemma legs_at_add:
  "legs_at (add_second_leg l m) k =
     (if normalize_text (leg_transfer_stop l) = k then legs_at m k @ [l] else legs_at m k)"
  by (auto simp: legs_at_def add_second_leg_def Let_def split: option.splits)

lemma legs_at_fold_add:
  "legs_at (fold add_second_leg ls m) k =
     legs_at m k @ filter (\<lambda>l. normalize_text (leg_transfer_stop l) = k) ls"
  by (induction ls arbitrary: m) (simp_all add: legs_at_add)

lemma collect_legs_fold:
  "fold (\<lambda>route (first_legs, by_transfer).
             (first_legs @ first_legs_of rf am route,
              fold add_second_leg (second_legs_of rt route) by_transfer)) rs (fl0, m0)
   = (fl1, m1) \<Longrightarrow>
   fl1 = fl0 @ concat (map (first_legs_of rf am) rs)
   \<and> (\<forall>k. legs_at m1 k = legs_at m0 k
          @ filter (\<lambda>l. normalize_text (leg_transfer_stop l) = k) (concat (map (second_legs_of rt) rs)))"
proof (induction rs arbitrary: fl0 m0)
  case Nil
  then show ?case by simp
next
  case (Cons r rs)
  from Cons.prems have "fold (\<lambda>route (first_legs, by_transfer).
             (first_legs @ first_legs_of rf am route,
              fold add_second_leg (second_legs_of rt route) by_transfer)) rs
          (fl0 @ first_legs_of rf am r, fold add_second_leg (second_legs_of rt r) m0) = (fl1, m1)"
    by simp
  from Cons.IH [OF this] show ?case
    by (simp add: legs_at_fold_add)
qed

lemma collect_legs_first:
  "fst (collect_legs rs rf rt am) = concat (map (first_legs_of rf am) rs)"
  using collect_legs_fold [of rf am rt rs "[]" Map.empty]
  by (cases "collect_legs rs rf rt am") (simp add: collect_legs_def)

lemma collect_legs_second:
  "legs_at (snd (collect_legs rs rf rt am)) k =
     filter (\<lambda>l. normalize_text (leg_transfer_stop l) = k) (concat (map (second_legs_of rt) rs))"
  using collect_legs_fold [of rf am rt rs "[]" Map.empty]
  by (cases "collect_legs rs rf rt am") (simp add: collect_legs_def legs_at_def)

lemma first_leg_stops:
  assumes "s < t" and "t < length (stops route)"
  shows "leg_stops (first_leg route s t) \<noteq> []"
    and "hd (leg_stops (first_leg route s t)) = stops route ! s"
    and "last (leg_stops (first_leg route s t)) = leg_transfer_stop (first_leg route s t)"
    and "leg_stops (first_leg route s t) = map (\<lambda>i. stops route ! i) [s..<t + 1]"
proof -
  have st: "s \<le> t" using assms(1) by simp
  note sp = slice_props [OF st assms(2)]
  show "leg_stops (first_leg route s t) \<noteq> []"
    "hd (leg_stops (first_leg route s t)) = stops route ! s"
    "last (leg_stops (first_leg route s t)) = leg_transfer_stop (first_leg route s t)"
    "leg_stops (first_leg route s t) = map (\<lambda>i. stops route ! i) [s..<t + 1]"
    using sp by (simp_all add: first_leg_def)
qed

lemma second_leg_stops:
  assumes "u < e" and "e < length (stops route)"
  shows "leg_stops (second_leg route u e) \<noteq> []"
    and "hd (leg_stops (second_leg route u e)) = leg_transfer_stop (second_leg route u e)"
    and "last (leg_stops (second_leg route u e)) = stops route ! e"
    and "leg_stops (second_leg route u e) = map (\<lambda>i. stops route ! i) [u..<e + 1]"
proof -
  have ue: "u \<le> e" using assms(1) by simp
  note sp = slice_props [OF ue assms(2)]
  show "leg_stops (second_leg route u e) \<noteq> []"
    "hd (leg_stops (second_leg route u e)) = leg_transfer_stop (second_leg route u e)"
    "last (leg_stops (second_leg route u e)) = stops route ! e"
    "leg_stops (second_leg route u e) = map (\<lambda>i. stops route ! i) [u..<e + 1]"
    using sp by (simp_all add: second_leg_def)
qed

lemma best_second_leg_mem:
  "candidates \<noteq> [] \<Longrightarrow> best_second_leg_for_first_leg candidates d \<in> set candidates"
  using hd_sort_key_min [of candidates "second_leg_key d"]
  by (simp add: best_second_leg_for_first_leg_def)

lemma consider_leg_Some:
  assumes "consider_leg rf rt m leg1 bp = Some kp"
  shows "bp = Some kp \<or> (\<exists>leg2. pairing rf rt m leg1 leg2 kp)"
  using assms
  by (auto simp: consider_leg_def pairing_def Let_def split: if_splits option.splits prod.splits)

lemma fold_consider_leg_Some:
  assumes "fold (consider_leg rf rt m) legs bp = Some kp"
  shows "bp = Some kp \<or> (\<exists>leg1\<in>set legs. \<exists>leg2. pairing rf rt m leg1 leg2 kp)"
  using assms
proof (induction legs arbitrary: bp)
  case Nil
  then show ?case by simp
next
  case (Cons l legs)
  from Cons.prems have "fold (consider_leg rf rt m) legs (consider_leg rf rt m l bp) = Some kp"
    by simp
  from Cons.IH [OF this] consider_leg_Some [of rf rt m l bp kp]
  show ?case by auto
qed

lemma suggest_alternative_Some:
  assumes "suggest_alternative ag from_text to_text after_time = Some pl"
  shows "\<exists>rf rt leg1 leg2 k. resolve_stop ag from_text = Some rf \<and> resolve_stop ag to_text = Some rt
     \<and> leg1 \<in> set (concat (map (first_legs_of rf (parse_time after_time)) (routes ag)))
     \<and> leg2 \<in> set (concat (map (second_legs_of rt) (routes ag)))
     \<and> normalize_text (leg_transfer_stop leg2) = normalize_text (leg_transfer_stop leg1)
     \<and> \<not> same_trip leg1 leg2
     \<and> (k, pl) = plan_of rf rt leg1 leg2"
proof -
  from assms have nf: "\<not> falsy (resolve_stop ag from_text)" "\<not> falsy (resolve_stop ag to_text)"
    by (auto simp: suggest_alternative_def Let_def split: if_splits)
  then obtain rf rt where r: "resolve_stop ag from_text = Some rf" "resolve_stop ag to_text = Some rt"
    unfolding falsy_iff by blast
  define c where "c = collect_legs (routes ag) rf rt (parse_time after_time)"
  from assms nf r have "map_option snd (fold (consider_leg rf rt (snd c)) (fst c) None) = Some pl"
    by (simp add: suggest_alternative_def Let_def c_def split_beta)
  then obtain k where "fold (consider_leg rf rt (snd c)) (fst c) None = Some (k, pl)"
    by auto
  from fold_consider_leg_Some [OF this] obtain leg1 leg2 where
    l1: "leg1 \<in> set (fst c)" and pa: "pairing rf rt (snd c) leg1 leg2 (k, pl)"
    by auto
  let ?key = "normalize_text (leg_transfer_stop leg1)"
  from pa have ne: "legs_at (snd c) ?key \<noteq> []"
    and l2: "leg2 = best_second_leg_for_first_leg (legs_at (snd c) ?key) (leg_departure_minutes leg1)"
    and ns: "\<not> same_trip leg1 leg2" and kp: "(k, pl) = plan_of rf rt leg1 leg2"
    unfolding pairing_def by blast+
  from best_second_leg_mem [OF ne] l2 have "leg2 \<in> set (legs_at (snd c) ?key)" by simp
  then have "leg2 \<in> set (concat (map (second_legs_of rt) (routes ag)))"
    "normalize_text (leg_transfer_stop leg2) = ?key"
    unfolding c_def collect_legs_second by simp_all
  moreover have "leg1 \<in> set (concat (map (first_legs_of rf (parse_time after_time)) (routes ag)))"
    using l1 unfolding c_def collect_legs_first .
  ultimately show ?thesis using r ns kp by blast
qed

text \<open>
  Claim C2. In a plan that \<open>suggest_alternative\<close> returns, the last stop of the first
  leg and the first stop of the second leg are the same stop (equal after
  normalization; it is the transfer stop of the plan), and the pair of the first and
  last stop of the first leg differs from that pair of the second leg.
\<close>

theorem transfer_legs_meet:
  assumes "suggest_alternative ag from_text to_text after_time = Some pl"
  shows "p_stops (plan_leg1 pl) \<noteq> [] \<and> p_stops (plan_leg2 pl) \<noteq> []
     \<and> normalize_text (last (p_stops (plan_leg1 pl))) = normalize_text (hd (p_stops (plan_leg2 pl)))
     \<and> normalize_text (last (p_stops (plan_leg1 pl))) = normalize_text (plan_transfer_stop pl)
     \<and> (normalize_text (hd (p_stops (plan_leg1 pl))), normalize_text (last (p_stops (plan_leg1 pl))))
       \<noteq> (normalize_text (hd (p_stops (plan_leg2 pl))), normalize_text (last (p_stops (plan_leg2 pl))))"
proof -
  from suggest_alternative_Some [OF assms] obtain rf rt leg1 leg2 k where
    l1: "leg1 \<in> set (concat (map (first_legs_of rf (parse_time after_time)) (routes ag)))"
    and l2: "leg2 \<in> set (concat (map (second_legs_of rt) (routes ag)))"
    and tr: "normalize_text (leg_transfer_stop leg2) = normalize_text (leg_transfer_stop leg1)"
    and ns: "\<not> same_trip leg1 leg2"
    and kp: "(k, pl) = plan_of rf rt leg1 leg2"
    by blast
  from l1 obtain r1 where "leg1 \<in> set (first_legs_of rf (parse_time after_time) r1)"
    by auto
  then obtain s t where f: "s < t" "t < length (stops r1)" "leg1 = first_leg r1 s t"
    unfolding first_legs_of_mem by blast
  from l2 obtain r2 where "leg2 \<in> set (second_legs_of rt r2)"
    by auto
  then obtain u e where g0: "find_stop_index (stops r2) rt = Some e" "u < e"
    "leg2 = second_leg r2 u e"
    unfolding second_legs_of_mem by blast
  from find_stop_index_Some [OF g0(1)] have g: "e < length (stops r2)" by simp
  note a = first_leg_stops [OF f(1,2)]
  note b = second_leg_stops [OF g0(2) g]
  from kp have pl: "plan_leg1 pl = leg_payload_of leg1" "plan_leg2 pl = leg_payload_of leg2"
    "plan_transfer_stop pl = leg_transfer_stop leg1"
    by (auto simp: plan_of_def Let_def)
  have s1: "p_stops (plan_leg1 pl) = leg_stops leg1" and s2: "p_stops (plan_leg2 pl) = leg_stops leg2"
    using pl by (simp_all add: leg_payload_of_def)
  have "last (leg_stops leg1) = leg_transfer_stop leg1" using a(3) f(3) by simp
  moreover have "hd (leg_stops leg2) = leg_transfer_stop leg2" using b(2) g0(3) by simp
  moreover have "leg_stops leg1 \<noteq> []" "leg_stops leg2 \<noteq> []" using a(1) b(1) f(3) g0(3) by simp_all
  ultimately show ?thesis
    using tr ns s1 s2 pl(3) by (simp add: same_trip_def)
qed

theorem transfer_legs_meet_witness:
  "suggest_alternative transfer_agent ''A'' ''D'' []
     = Some \<lparr>plan_type = ''transfer'', plan_from_stop = ''A'', plan_to_stop = ''D'',
             plan_transfer_stop = ''C'',
             plan_leg1 = \<lparr>p_bus_number = ''10'', p_departure_time = ''08:00'',
                          p_duration_minutes = 30, p_stops = [''A'', ''B'', ''C'']\<rparr>,
             plan_leg2 = \<lparr>p_bus_number = ''12'', p_departure_time = ''08:20'',
                          p_duration_minutes = 15, p_stops = [''C'', ''D'']\<rparr>,
             plan_total_duration_minutes = 65\<rparr>
   \<and> normalize_text (last [''A'', ''B'', ''C'']) = normalize_text (hd [''C'', ''D''])
   \<and> (normalize_text (hd [''A'', ''B'', ''C'']), normalize_text (last [''A'', ''B'', ''C'']))
       \<noteq> (normalize_text (hd [''C'', ''D'']), normalize_text (last [''C'', ''D'']))"
proof -
  have h: "suggest_alternative transfer_agent ''A'' ''D'' []
     = Some \<lparr>plan_type = ''transfer'', plan_from_stop = ''A'', plan_to_stop = ''D'',
             plan_transfer_stop = ''C'',
             plan_leg1 = \<lparr>p_bus_number = ''10'', p_departure_time = ''08:00'',
                          p_duration_minutes = 30, p_stops = [''A'', ''B'', ''C'']\<rparr>,
             plan_leg2 = \<lparr>p_bus_number = ''12'', p_departure_time = ''08:20'',
                          p_duration_minutes = 15, p_stops = [''C'', ''D'']\<rparr>,
             plan_total_duration_minutes = 65\<rparr>"
    by code_simp
  from transfer_legs_meet [OF h] h show ?thesis
    by simp
qed

text \<open>
  Claim C10. \<open>suggest_alternative\<close> applies the time filter to first legs only. The
  second legs filed under a transfer key are those of every route that contains the
  resolved \<open>to\<close> stop, whatever \<open>after_minutes\<close> is; the wait that enters the total
  duration is \<open>max(0, leg2.departure - leg1.departure)\<close>. In the timetable \<open>late_agent\<close>
  with the filter \<open>09:00\<close>, the plan returned has a second leg that departs at 08:00,
  before the filter and before the first leg (10:00), and its total duration is the sum
  of the two leg durations: the wait is 0.
\<close>

theorem second_legs_ignore_time_filter:
  "legs_at (snd (collect_legs rs rf rt am)) k
     = filter (\<lambda>l. normalize_text (leg_transfer_stop l) = k) (concat (map (second_legs_of rt) rs))
   \<and> plan_total_duration_minutes (snd (plan_of rf rt leg1 leg2))
     = leg_duration_minutes leg1 + leg_duration_minutes leg2
       + max 0 (leg_departure_minutes leg2 - leg_departure_minutes leg1)
   \<and> parse_time ''09:00'' = Some 540
   \<and> suggest_alternative late_agent ''A'' ''C'' ''09:00''
     = Some \<lparr>plan_type = ''transfer'', plan_from_stop = ''A'', plan_to_stop = ''C'',
             plan_transfer_stop = ''B'',
             plan_leg1 = \<lparr>p_bus_number = ''20'', p_departure_time = ''10:00'',
                          p_duration_minutes = 20, p_stops = [''A'', ''B'']\<rparr>,
             plan_leg2 = \<lparr>p_bus_number = ''21'', p_departure_time = ''08:00'',
                          p_duration_minutes = 15, p_stops = [''B'', ''C'']\<rparr>,
             plan_total_duration_minutes = 35\<rparr>
   \<and> clock_to_minutes ''10:00'' = Some 600
   \<and> clock_to_minutes ''08:00'' = Some 480"
proof -
  have "plan_total_duration_minutes (snd (plan_of rf rt leg1 leg2))
     = leg_duration_minutes leg1 + leg_duration_minutes leg2
       + max 0 (leg_departure_minutes leg2 - leg_departure_minutes leg1)"
    by (simp add: plan_of_def Let_def)
  moreover have "parse_time ''09:00'' = Some 540"
    by code_simp
  moreover have "suggest_alternative late_agent ''A'' ''C'' ''09:00''
     = Some \<lparr>plan_type = ''transfer'', plan_from_stop = ''A'', plan_to_stop = ''C'',
             plan_transfer_stop = ''B'',
             plan_leg1 = \<lparr>p_bus_number = ''20'', p_departure_time = ''10:00'',
                          p_duration_minutes = 20, p_stops = [''A'', ''B'']\<rparr>,
             plan_leg2 = \<lparr>p_bus_number = ''21'', p_departure_time = ''08:00'',
                          p_duration_minutes = 15, p_stops = [''B'', ''C'']\<rparr>,
             plan_total_duration_minutes = 35\<rparr>"
    by code_simp
  moreover have "clock_to_minutes ''10:00'' = Some 600" "clock_to_minutes ''08:00'' = Some 480"
    by code_simp+
  ultimately show ?thesis
    using collect_legs_second [of rs rf rt am k] by blast
qed

section \<open>Resolving a canonical stop name\<close>

lemma add_stop_inv: "stop_list_inv st \<Longrightarrow> stop_list_inv (add_stop stop st)"
  by (cases st) (auto simp: stop_list_inv_def add_stop_def Let_def)

lemma fold_add_stop_inv: "stop_list_inv st \<Longrightarrow> stop_list_inv (fold add_stop sts st)"
  by (induction sts arbitrary: st) (simp_all add: add_stop_inv)

lemma fold_rows_inv:
  "stop_list_inv st \<Longrightarrow> stop_list_inv (fold (\<lambda>route. fold add_stop (stops route)) rs st)"
  by (induction rs arbitrary: st) (simp_all add: fold_add_stop_inv)

lemma build_stop_list_distinct: "distinct (map normalize_text (build_stop_list rs))"
proof -
  have "stop_list_inv ([], {})" by (simp add: stop_list_inv_def)
  from fold_rows_inv [OF this, of rs] show ?thesis
    by (simp add: stop_list_inv_def build_stop_list_def)
qed

lemma fold_upd_other:
  "k \<notin> f ` set xs \<Longrightarrow> fold (\<lambda>x m. m(f x \<mapsto> x)) xs m k = m k"
  by (induction xs arbitrary: m) auto

lemma fold_upd_distinct:
  "distinct (map f xs) \<Longrightarrow> x \<in> set xs \<Longrightarrow> fold (\<lambda>x m. m(f x \<mapsto> x)) xs m (f x) = Some x"
proof (induction xs arbitrary: m)
  case Nil
  then show ?case by simp
next
  case (Cons y ys)
  show ?case
  proof (cases "x \<in> set ys")
    case True
    with Cons show ?thesis by simp
  next
    case False
    with Cons.prems have xy: "x = y" and ny: "f y \<notin> f ` set ys" by auto
    have "fold (\<lambda>x m. m(f x \<mapsto> x)) (y # ys) m (f x)
          = fold (\<lambda>x m. m(f x \<mapsto> x)) ys (m(f y \<mapsto> y)) (f y)"
      by (simp only: fold_Cons o_apply xy)
    also have "\<dots> = (m(f y \<mapsto> y)) (f y)"
      using ny by (rule fold_upd_other)
    also have "\<dots> = Some x"
      by (simp add: xy)
    finally show ?thesis .
  qed
qed

lemma stop_lookup_known:
  "stop \<in> set (build_stop_list rs) \<Longrightarrow>
     stop_lookup_of (build_stop_list rs) (normalize_text stop) = Some stop"
  unfolding stop_lookup_of_def
  by (rule fold_upd_distinct [OF build_stop_list_distinct])

lemma in_dropWhile: "c \<in> set xs \<Longrightarrow> \<not> P c \<Longrightarrow> c \<in> set (dropWhile P xs)"
  by (induction xs) auto

lemma strip_keeps: "c \<in> set s \<Longrightarrow> \<not> is_space c \<Longrightarrow> c \<in> set (strip s)"
  by (simp add: strip_def in_dropWhile)

lemma strip_nonblank:
  assumes "strip s \<noteq> []"
  shows "\<exists>c\<in>set (strip s). \<not> is_space c"
proof -
  define z where "z = dropWhile is_space (rev (dropWhile is_space s))"
  have "z \<noteq> []" using assms by (simp add: strip_def z_def)
  then have "\<not> is_space (hd z)" "hd z \<in> set z"
    unfolding z_def by (simp_all add: hd_dropWhile)
  then show ?thesis by (auto simp: strip_def z_def)
qed

lemma lower_char_space: "\<not> is_space c \<Longrightarrow> \<not> is_space (lower_char c)"
  by (auto simp: is_space_def lower_char_def Let_def)

lemma split_acc_words: "w \<noteq> [] \<or> (\<exists>c\<in>set s. \<not> is_space c) \<Longrightarrow> split_acc w s \<noteq> []"
  by (induction s arbitrary: w) auto

lemma split_acc_nonempty: "x \<in> set (split_acc w s) \<Longrightarrow> x \<noteq> []"
  by (induction s arbitrary: w) (auto split: if_splits)

lemma join_nonempty: "ws \<noteq> [] \<Longrightarrow> \<forall>x\<in>set ws. x \<noteq> [] \<Longrightarrow> join sep ws \<noteq> []"
  by (cases "(sep, ws)" rule: join.cases) auto

lemma normalize_nonblank:
  assumes "c \<in> set s" and "\<not> is_space c"
  shows "normalize_text s \<noteq> []"
proof -
  have "lower_char c \<in> set (lower (strip s))"
    using strip_keeps [OF assms] by (simp add: lower_def)
  with lower_char_space [OF assms(2)] have "split_ws (lower (strip s)) \<noteq> []"
    unfolding split_ws_def by (intro split_acc_words) blast
  moreover have "\<forall>x\<in>set (split_ws (lower (strip s))). x \<noteq> []"
    unfolding split_ws_def using split_acc_nonempty by blast
  ultimately show ?thesis
    unfolding normalize_text_def by (rule join_nonempty)
qed

lemma parse_stops_nonblank: "stop \<in> set (parse_stops cell) \<Longrightarrow> normalize_text stop \<noteq> []"
proof -
  assume "stop \<in> set (parse_stops cell)"
  then obtain x where "stop = strip x" "strip x \<noteq> []"
    by (auto simp: parse_stops_def)
  with strip_nonblank [of x] obtain c where "c \<in> set stop" "\<not> is_space c" by auto
  then show ?thesis by (rule normalize_nonblank)
qed

lemma add_stop_subset: "set (fst (add_stop stop st)) \<subseteq> insert stop (set (fst st))"
  by (cases st) (auto simp: add_stop_def Let_def)

lemma fold_add_stop_subset: "set (fst (fold add_stop sts st)) \<subseteq> set sts \<union> set (fst st)"
proof (induction sts arbitrary: st)
  case Nil
  show ?case by simp
next
  case (Cons s sts)
  from Cons [of "add_stop s st"] add_stop_subset [of s st] show ?case by auto
qed

lemma fold_rows_subset:
  "set (fst (fold (\<lambda>route. fold add_stop (stops route)) rs st))
     \<subseteq> (\<Union>r\<in>set rs. set (stops r)) \<union> set (fst st)"
proof (induction rs arbitrary: st)
  case Nil
  show ?case by simp
next
  case (Cons r rs)
  from Cons [of "fold add_stop (stops r) st"] fold_add_stop_subset [of "stops r" st]
  show ?case by auto
qed

lemma build_stop_list_subset: "set (build_stop_list rs) \<subseteq> (\<Union>r\<in>set rs. set (stops r))"
  using fold_rows_subset [of rs "([], {})"] by (simp add: build_stop_list_def)

text \<open>
  Claim C6, as amended. For the agent built from rows whose stops come from the \<open>stops\<close>
  cell as \<open>_load_csv\<close> reads it, a stop of the known-stop list whose normalized name is
  not a key of the alias table resolves to itself. The alias step comes before the
  exact lookup, so a known stop whose normalized name is an alias key is looked up
  under the alias target instead.
\<close>

theorem resolve_canonical_stop:
  assumes "\<forall>r\<in>set rows. \<exists>cell. stops r = parse_stops cell"
    and "stop \<in> set (known_stops (transport_agent rows))"
    and "aliases (transport_agent rows) (normalize_text stop) = None"
  shows "resolve_stop (transport_agent rows) stop = Some stop"
proof -
  have k: "stop \<in> set (build_stop_list rows)"
    using assms(2) by (simp add: transport_agent_def)
  with build_stop_list_subset [of rows] obtain r where "r \<in> set rows" "stop \<in> set (stops r)"
    by auto
  with assms(1) obtain cell where "stop \<in> set (parse_stops cell)"
    by metis
  then have n: "normalize_text stop \<noteq> []"
    by (rule parse_stops_nonblank)
  from stop_lookup_known [OF k]
  have "stop_lookup (transport_agent rows) (normalize_text stop) = Some stop"
    by (simp add: transport_agent_def)
  then show ?thesis
    using n assms(3) by (simp add: resolve_stop_def)
qed

theorem resolve_canonical_stop_witness:
  "stops row_airports = parse_stops ''Airport| Charbagh |Amausi Airport||''
   \<and> ''Charbagh'' \<in> set (known_stops (transport_agent [row_airports]))
   \<and> aliases (transport_agent [row_airports]) (normalize_text ''Charbagh'') = None
   \<and> resolve_stop (transport_agent [row_airports]) ''Charbagh'' = Some ''Charbagh''"
proof -
  have c: "stops row_airports = parse_stops ''Airport| Charbagh |Amausi Airport||''"
    by code_simp
  have k: "''Charbagh'' \<in> set (known_stops (transport_agent [row_airports]))"
    by code_simp
  have a: "aliases (transport_agent [row_airports]) (normalize_text ''Charbagh'') = None"
    by code_simp
  have "\<forall>r\<in>set [row_airports]. \<exists>cell. stops r = parse_stops cell"
    using c by auto
  from resolve_canonical_stop [OF this k a] c k a show ?thesis
    by simp
qed

text \<open>
  Claim C6 as stated fails: in a timetable with the stops \<open>Airport\<close> and
  \<open>Amausi Airport\<close>, the canonical name \<open>Airport\<close> is the alias key \<open>airport\<close> and
  resolves to the other stop.
\<close>

theorem alias_redirects_canonical_stop:
  "''Airport'' \<in> set (known_stops airport_agent)
   \<and> resolve_stop airport_agent ''Airport'' = Some ''Amausi Airport''"
  by code_simp

section \<open>The duration of a segment\<close>

text \<open>
  Claim C5, as amended. Every first leg that \<open>suggest_alternative\<close> builds from a route
  goes from the first position \<open>s\<close> of the \<open>from\<close> stop to a later position \<open>t\<close>, every
  second leg from a position \<open>u\<close> to the first position \<open>e\<close> of the \<open>to\<close> stop after it,
  and the duration of the leg is \<open>max(5, round(d * (segment_edges / total_edges)))\<close> in
  floating point: the quotient of \<open>segment_edges = max(1, t - s)\<close> by
  \<open>total_edges = max(1, len(stops) - 1)\<close> is rounded to a float, its product with the
  duration \<open>d\<close> is rounded to a float, and \<open>round\<close> takes the nearest integer, ties to
  even.
\<close>

theorem leg_segment_duration:
  "(l \<in> set (first_legs_of rf am route) \<longrightarrow>
      (\<exists>s t. find_stop_index (stops route) rf = Some s \<and> s < t \<and> t < length (stops route)
         \<and> l = first_leg route s t
         \<and> leg_duration_minutes l
           = max 5 (py_round (fl (fl (of_int (duration_minutes route))
                                  * fl (of_int (max 1 (int t - int s))
                                        / of_int (max 1 (int (length (stops route)) - 1))))))))
   \<and> (l \<in> set (second_legs_of rt route) \<longrightarrow>
      (\<exists>u e. find_stop_index (stops route) rt = Some e \<and> u < e \<and> e < length (stops route)
         \<and> l = second_leg route u e
         \<and> leg_duration_minutes l
           = max 5 (py_round (fl (fl (of_int (duration_minutes route))
                                  * fl (of_int (max 1 (int e - int u))
                                        / of_int (max 1 (int (length (stops route)) - 1))))))))"
proof (intro conjI impI)
  assume "l \<in> set (first_legs_of rf am route)"
  then obtain s t where h: "find_stop_index (stops route) rf = Some s" "s < t"
    "t < length (stops route)" "l = first_leg route s t"
    unfolding first_legs_of_mem by blast
  have "leg_duration_minutes l
           = max 5 (py_round (fl (fl (of_int (duration_minutes route))
                                  * fl (of_int (max 1 (int t - int s))
                                        / of_int (max 1 (int (length (stops route)) - 1))))))"
    using h(4) by (simp add: first_leg_def segment_duration_def fmul_def float_of_int_def
        int_truediv_def Let_def)
  with h show "\<exists>s t. find_stop_index (stops route) rf = Some s \<and> s < t \<and> t < length (stops route)
         \<and> l = first_leg route s t
         \<and> leg_duration_minutes l
           = max 5 (py_round (fl (fl (of_int (duration_minutes route))
                                  * fl (of_int (max 1 (int t - int s))
                                        / of_int (max 1 (int (length (stops route)) - 1))))))"
    by blast
next
  assume "l \<in> set (second_legs_of rt route)"
  then obtain u e where h: "find_stop_index (stops route) rt = Some e" "u < e"
    "l = second_leg route u e"
    unfolding second_legs_of_mem by blast
  from find_stop_index_Some [OF h(1)] have e: "e < length (stops route)" by simp
  have "leg_duration_minutes l
           = max 5 (py_round (fl (fl (of_int (duration_minutes route))
                                  * fl (of_int (max 1 (int e - int u))
                                        / of_int (max 1 (int (length (stops route)) - 1))))))"
    using h(3) by (simp add: second_leg_def segment_duration_def fmul_def float_of_int_def
        int_truediv_def Let_def)
  with h e show "\<exists>u e. find_stop_index (stops route) rt = Some e \<and> u < e \<and> e < length (stops route)
         \<and> l = second_leg route u e
         \<and> leg_duration_minutes l
           = max 5 (py_round (fl (fl (of_int (duration_minutes route))
                                  * fl (of_int (max 1 (int e - int u))
                                        / of_int (max 1 (int (length (stops route)) - 1))))))"
    by blast
qed

theorem leg_segment_duration_witness:
  "first_leg row_abc 0 1 \<in> set (first_legs_of ''A'' None row_abc)
   \<and> (\<exists>s t. find_stop_index (stops row_abc) ''A'' = Some s \<and> s < t
         \<and> t < length (stops row_abc)
         \<and> first_leg row_abc 0 1 = first_leg row_abc s t
         \<and> leg_duration_minutes (first_leg row_abc 0 1)
           = max 5 (py_round (fl (fl (of_int (duration_minutes row_abc))
                                  * fl (of_int (max 1 (int t - int s))
                                        / of_int (max 1 (int (length (stops row_abc)) - 1)))))))
   \<and> second_leg row_abc 1 2 \<in> set (second_legs_of ''C'' row_abc)
   \<and> (\<exists>u e. find_stop_index (stops row_abc) ''C'' = Some e \<and> u < e
         \<and> e < length (stops row_abc)
         \<and> second_leg row_abc 1 2 = second_leg row_abc u e
         \<and> leg_duration_minutes (second_leg row_abc 1 2)
           = max 5 (py_round (fl (fl (of_int (duration_minutes row_abc))
                                  * fl (of_int (max 1 (int e - int u))
                                        / of_int (max 1 (int (length (stops row_abc)) - 1)))))))
   \<and> leg_duration_minutes (second_leg row_abc 1 2) = 15"
proof -
  have a: "first_leg row_abc 0 1 \<in> set (first_legs_of ''A'' None row_abc)"
    by code_simp
  have b: "second_leg row_abc 1 2 \<in> set (second_legs_of ''C'' row_abc)"
    by code_simp
  have c: "leg_duration_minutes (second_leg row_abc 1 2) = 15"
    by code_simp
  from leg_segment_duration [of "first_leg row_abc 0 1" "''A''" None row_abc "''C''"]
    leg_segment_duration [of "second_leg row_abc 1 2" "''A''" None row_abc "''C''"]
    a b c
  show ?thesis by blast
qed

text \<open>
  Claim C5 as stated, over exact rationals, fails: on a route of 45 minutes with eleven
  stops, the leg from stop 0 to stop 7 has the exact value \<open>45 * 7 / 10 = 31.5\<close>, which
  rounds to 32, while the float product is \<open>31.499999999999996\<close> and the code returns 31.
\<close>

theorem segment_duration_not_exact:
  "first_leg row_eleven 0 7 \<in> set (first_legs_of ''S0'' None row_eleven)
   \<and> leg_duration_minutes (first_leg row_eleven 0 7) = 31
   \<and> segment_duration row_eleven 0 7 = 31
   \<and> segment_duration_exact row_eleven 0 7 = 32
   \<and> (of_int (duration_minutes row_eleven) * 7 / 10 :: rat) = 63 / 2"
  by code_simp

section \<open>The similarity score\<close>

lemma flm_row_step:
  assumes "blo \<le> j" and "j < bhi"
  shows "flm_row j2len i blo bhi (j # js) (nj, (bi, bj, bs)) =
     flm_row j2len i blo bhi js
       (nj(j := match_len j2len j),
        if bs < match_len j2len j
        then (i + 1 - match_len j2len j, j + 1 - match_len j2len j, match_len j2len j)
        else (bi, bj, bs))"
  using assms by (simp add: match_len_def Let_def)

lemma flm_row_append:
  assumes "\<forall>j\<in>set xs. blo \<le> j \<and> j < bhi"
  shows "flm_row j2len i blo bhi (xs @ ys) st
       = flm_row j2len i blo bhi ys (flm_row j2len i blo bhi xs st)"
  using assms
proof (induction xs arbitrary: st)
  case Nil
  then show ?case by simp
next
  case (Cons j xs)
  obtain nj bi bj bs where st: "st = (nj, (bi, bj, bs))" by (metis prod_cases3)
  have j: "blo \<le> j" "j < bhi" using Cons.prems by simp_all
  have r: "\<forall>j\<in>set xs. blo \<le> j \<and> j < bhi" using Cons.prems by simp
  show ?case
    unfolding st append_Cons flm_row_step [OF j] by (rule Cons.IH [OF r])
qed

lemma flm_row_keep:
  assumes "\<forall>j\<in>set xs. blo \<le> j \<and> j < bhi \<and> match_len j2len j \<le> bs"
  shows "snd (flm_row j2len i blo bhi xs (nj, (bi, bj, bs))) = (bi, bj, bs)"
  using assms
proof (induction xs arbitrary: nj)
  case Nil
  then show ?case by simp
next
  case (Cons j xs)
  have j: "blo \<le> j" "j < bhi" and k: "\<not> bs < match_len j2len j"
    using Cons.prems by auto
  have r: "\<forall>j\<in>set xs. blo \<le> j \<and> j < bhi \<and> match_len j2len j \<le> bs" using Cons.prems by simp
  show ?case
    unfolding flm_row_step [OF j] using k Cons.IH [OF r] by simp
qed

lemma flm_row_fst:
  assumes "\<forall>j\<in>set xs. blo \<le> j \<and> j < bhi"
  shows "fst (flm_row j2len i blo bhi xs (nj, best))
       = (\<lambda>j. if j \<in> set xs then match_len j2len j else nj j)"
  using assms
proof (induction xs arbitrary: nj best)
  case Nil
  then show ?case by simp
next
  case (Cons j xs)
  obtain bi bj bs where b: "best = (bi, bj, bs)" by (metis prod_cases3)
  have j: "blo \<le> j" "j < bhi" using Cons.prems by simp_all
  have r: "\<forall>j\<in>set xs. blo \<le> j \<and> j < bhi" using Cons.prems by simp
  show ?case
    unfolding b flm_row_step [OF j] Cons.IH [OF r] by auto
qed

lemma run_len_empty: "b2j a (a ! i) = [] \<Longrightarrow> run_len a i = 0"
  by (cases i) simp_all

lemma run_len_entry:
  "b2j a (a ! i) \<noteq> [] \<Longrightarrow> run_len a i = (if i = 0 then 0 else run_len a (i - 1)) + 1"
  by (cases i) simp_all

lemma b2j_entry:
  assumes "b2j a c \<noteq> []"
  shows "b2j a c = filter (\<lambda>j. a ! j = c) [0..<length a]"
  using assms by (simp add: b2j_def split: if_splits)

lemma b2j_split:
  assumes "b2j a (a ! m) \<noteq> []" and "m < length a"
  shows "b2j a (a ! m) = filter (\<lambda>j. a ! j = a ! m) [0..<m] @ [m]
                         @ filter (\<lambda>j. a ! j = a ! m) [Suc m..<length a]"
proof -
  have "[0..<m + (length a - m)] = [0..<m] @ [m..<m + (length a - m)]"
    by (rule upt_add_eq_append) simp
  moreover have "[m..<length a] = m # [Suc m..<length a]"
    using assms(2) by (rule upt_conv_Cons)
  ultimately have "[0..<length a] = [0..<m] @ [m] @ [Suc m..<length a]"
    using assms(2) by simp
  then show ?thesis
    using b2j_entry [OF assms(1)] by simp
qed

lemma match_len_bounds:
  assumes inv: "row_inv a m (j2len, (bi, bj, bs))"
    and e: "b2j a (a ! m) \<noteq> []" and j: "j < length a" "a ! j = a ! m"
  shows "match_len j2len j \<le> run_len a j" and "match_len j2len j \<le> run_len a m"
    and "match_len j2len m = run_len a m"
proof -
  have h1: "\<forall>j<length a. j2len j \<le> run_len a j"
    and h2: "m = 0 \<longrightarrow> (\<forall>j. j2len j = 0)"
    and h3: "m \<noteq> 0 \<longrightarrow> (\<forall>j. j2len j \<le> run_len a (m - 1)) \<and> j2len (m - 1) = run_len a (m - 1)"
    using inv by (auto simp: row_inv_def split: if_splits)
  have ej: "b2j a (a ! j) \<noteq> []" using e j(2) by simp
  have "j \<noteq> 0 \<Longrightarrow> j2len (j - 1) \<le> run_len a (j - 1)"
    using h1 j(1) by simp
  then show "match_len j2len j \<le> run_len a j"
    unfolding run_len_entry [OF ej] match_len_def by simp
  show "match_len j2len j \<le> run_len a m"
  proof (cases "m = 0")
    case True
    with h2 show ?thesis unfolding run_len_entry [OF e] match_len_def by simp
  next
    case False
    with h3 have "j \<noteq> 0 \<Longrightarrow> j2len (j - 1) \<le> run_len a (m - 1)" by simp
    with False show ?thesis unfolding run_len_entry [OF e] match_len_def by simp
  qed
  show "match_len j2len m = run_len a m"
    using h3 unfolding run_len_entry [OF e] match_len_def by simp
qed

lemma run_len_le: "run_len a i \<le> i + 1"
  by (induction i) auto

lemma row_inv_step:
  assumes m: "m < length a" and inv: "row_inv a m (j2len, best)"
  shows "row_inv a (Suc m) (flm_row j2len m 0 (length a) (b2j a (a ! m)) (\<lambda>_. 0, best))"
proof -
  obtain bi bj bs where best: "best = (bi, bj, bs)" by (metis prod_cases3)
  have inv': "row_inv a m (j2len, (bi, bj, bs))" using inv best by simp
  have b: "bi = bj" "bi + bs \<le> m" "\<forall>i<m. run_len a i \<le> bs"
    using inv' by (auto simp: row_inv_def)
  show ?thesis
  proof (cases "b2j a (a ! m) = []")
    case True
    have "run_len a i \<le> bs" if "i < Suc m" for i
      using that b(3) run_len_empty [OF True] by (cases "i = m") auto
    then show ?thesis
      using True b run_len_empty [OF True] by (simp add: row_inv_def best)
  next
    case False
    define js1 where "js1 = filter (\<lambda>j. a ! j = a ! m) [0..<m]"
    define js2 where "js2 = filter (\<lambda>j. a ! j = a ! m) [Suc m..<length a]"
    define k where "k = match_len j2len m"
    have js: "b2j a (a ! m) = js1 @ [m] @ js2"
      unfolding js1_def js2_def by (rule b2j_split [OF False m])
    have in1: "j < m \<and> j < length a \<and> a ! j = a ! m" if "j \<in> set js1" for j
      using that m by (auto simp: js1_def)
    have in2: "j < length a \<and> a ! j = a ! m" if "j \<in> set js2" for j
      using that by (auto simp: js2_def)
    note ml = match_len_bounds [OF inv' False]
    have km: "k = run_len a m" unfolding k_def using ml(3) [OF m] by simp
    have r1: "\<forall>j\<in>set js1. 0 \<le> j \<and> j < length a" using in1 by simp
    have r2: "\<forall>j\<in>set js2. 0 \<le> j \<and> j < length a" using in2 by simp
    have rm: "\<forall>j\<in>set [m]. 0 \<le> j \<and> j < length a" using m by simp
    have rall: "\<forall>j\<in>set (b2j a (a ! m)). 0 \<le> j \<and> j < length a"
      unfolding js using r1 r2 m by auto
    \<comment> \<open>the positions before \<open>m\<close> leave the best match alone\<close>
    obtain n1 where s1: "flm_row j2len m 0 (length a) js1 (\<lambda>_. 0, best) = (n1, (bi, bj, bs))"
    proof -
      have "\<forall>j\<in>set js1. 0 \<le> j \<and> j < length a \<and> match_len j2len j \<le> bs"
      proof
        fix j assume j: "j \<in> set js1"
        from in1 [OF j] have "match_len j2len j \<le> run_len a j" "j < m" "j < length a"
          using ml(1) by auto
        with b(3) show "0 \<le> j \<and> j < length a \<and> match_len j2len j \<le> bs"
          by (meson le0 le_trans)
      qed
      from flm_row_keep [OF this, of m "\<lambda>_. 0" bi bj]
      have "snd (flm_row j2len m 0 (length a) js1 (\<lambda>_. 0, best)) = (bi, bj, bs)"
        by (simp add: best)
      then show ?thesis using that by (metis prod.collapse)
    qed
    \<comment> \<open>the position \<open>m\<close> itself\<close>
    define best2 where "best2 = (if bs < k then (m + 1 - k, m + 1 - k, k) else (bi, bi, bs))"
    have s2: "flm_row j2len m 0 (length a) [m] (n1, (bi, bj, bs)) = (n1(m := k), best2)"
    proof -
      have "flm_row j2len m 0 (length a) [m] (n1, (bi, bj, bs))
            = flm_row j2len m 0 (length a) []
                (n1(m := k), if bs < k then (m + 1 - k, m + 1 - k, k) else (bi, bj, bs))"
        unfolding k_def using m by (intro flm_row_step) simp_all
      then show ?thesis using b(1) by (simp add: best2_def)
    qed
    obtain bi2 bs2 where b2: "best2 = (bi2, bi2, bs2)" "bi2 + bs2 \<le> Suc m" "k \<le> bs2" "bs \<le> bs2"
    proof (cases "bs < k")
      case True
      have "k \<le> m + 1" using km run_len_le [of a m] by simp
      then have "m + 1 - k + k \<le> Suc m" by simp
      with True that [of "m + 1 - k" k] show ?thesis by (simp add: best2_def)
    next
      case False
      with that [of bi bs] b(2) show ?thesis by (simp add: best2_def)
    qed
    \<comment> \<open>the positions after \<open>m\<close> leave the best match alone\<close>
    have s3: "snd (flm_row j2len m 0 (length a) js2 (n1(m := k), (bi2, bi2, bs2))) = (bi2, bi2, bs2)"
    proof (rule flm_row_keep)
      show "\<forall>j\<in>set js2. 0 \<le> j \<and> j < length a \<and> match_len j2len j \<le> bs2"
      proof
        fix j assume j: "j \<in> set js2"
        from in2 [OF j] have "match_len j2len j \<le> run_len a m" "j < length a"
          using ml(2) by auto
        with b2(3) km show "0 \<le> j \<and> j < length a \<and> match_len j2len j \<le> bs2"
          by simp
      qed
    qed
    have whole: "flm_row j2len m 0 (length a) (b2j a (a ! m)) (\<lambda>_. 0, best)
                 = flm_row j2len m 0 (length a) js2 (n1(m := k), (bi2, bi2, bs2))"
      unfolding js flm_row_append [OF r1] flm_row_append [OF rm] s1 s2 b2(1) ..
    have f: "fst (flm_row j2len m 0 (length a) (b2j a (a ! m)) (\<lambda>_. 0, best))
             = (\<lambda>j. if j \<in> set (b2j a (a ! m)) then match_len j2len j else 0)"
      by (rule flm_row_fst [OF rall])
    define nj where "nj = (\<lambda>j. if j \<in> set (b2j a (a ! m)) then match_len j2len j else 0)"
    have res: "flm_row j2len m 0 (length a) (b2j a (a ! m)) (\<lambda>_. 0, best) = (nj, (bi2, bi2, bs2))"
      using f s3 whole unfolding nj_def by (metis prod.collapse)
    have mem: "j < length a \<and> a ! j = a ! m" if "j \<in> set (b2j a (a ! m))" for j
      using that in1 in2 m unfolding js by auto
    have mm: "m \<in> set (b2j a (a ! m))" unfolding js by simp
    have c1: "\<forall>i<Suc m. run_len a i \<le> bs2"
    proof (intro allI impI)
      fix i assume "i < Suc m"
      then consider "i < m" | "i = m" by linarith
      then show "run_len a i \<le> bs2"
        using b(3) b2(3,4) km by cases (auto intro: le_trans)
    qed
    have c2: "\<forall>j<length a. nj j \<le> run_len a j"
      using mem ml(1) by (auto simp: nj_def)
    have c3: "\<forall>j. nj j \<le> run_len a m"
      using mem ml(2) by (auto simp: nj_def)
    have c4: "nj m = run_len a m"
      using mm ml(3) [OF m] by (simp add: nj_def)
    show ?thesis
      unfolding res using b2(2) c1 c2 c3 c4 by (simp add: row_inv_def)
  qed
qed

lemma flm_rows_Suc:
  "flm_rows a b 0 (Suc m) blo bhi =
     (case flm_rows a b 0 m blo bhi of
        (j2len, best) \<Rightarrow> flm_row j2len m blo bhi (b2j b (a ! m)) (\<lambda>_. 0, best))"
  by (simp add: flm_rows_def)

lemma flm_rows_inv: "m \<le> length a \<Longrightarrow> row_inv a m (flm_rows a a 0 m 0 (length a))"
proof (induction m)
  case 0
  show ?case by (simp add: flm_rows_def row_inv_def)
next
  case (Suc m)
  obtain j2len best where r: "flm_rows a a 0 m 0 (length a) = (j2len, best)"
    by (metis surj_pair)
  from Suc have "m < length a" "row_inv a m (j2len, best)" using r by simp_all
  from row_inv_step [OF this] show ?case
    unfolding flm_rows_Suc r by simp
qed

lemma extend_back_diag: "extend_back a a 0 0 (i, i, s) = (0, 0, i + s)"
proof (induction i arbitrary: s)
  case 0
  show ?case by simp
next
  case (Suc i)
  have "extend_back a a 0 0 (Suc i, Suc i, s) = extend_back a a 0 0 (i, i, s + 1)"
    by simp
  then show ?case using Suc [of "s + 1"] by simp
qed

lemma extend_fwd_diag: "m \<le> n \<Longrightarrow> extend_fwd a a n n (0, 0, m) = (0, 0, n)"
proof (induction "n - m" arbitrary: m)
  case 0
  then show ?case by simp
next
  case (Suc d)
  then have "m < n" "d = n - (m + 1)" "m + 1 \<le> n" by linarith+
  with Suc.hyps(1) [of "m + 1"] have "extend_fwd a a n n (0, 0, m + 1) = (0, 0, n)" by blast
  moreover have "extend_fwd a a n n (0, 0, m) = extend_fwd a a n n (0, 0, m + 1)"
    using \<open>m < n\<close> by simp
  ultimately show ?case by simp
qed

lemma find_longest_match_self:
  "find_longest_match a a 0 (length a) 0 (length a) = (0, 0, length a)"
proof -
  obtain j2len bi bj bs where r: "flm_rows a a 0 (length a) 0 (length a) = (j2len, (bi, bj, bs))"
    by (metis prod_cases3)
  from flm_rows_inv [of "length a" a] r have b: "bi = bj" "bi + bs \<le> length a"
    by (auto simp: row_inv_def)
  have "find_longest_match a a 0 (length a) 0 (length a)
        = extend_fwd a a (length a) (length a) (extend_back a a 0 0 (bi, bi, bs))"
    using r b(1) by (simp add: find_longest_match_def)
  also have "\<dots> = extend_fwd a a (length a) (length a) (0, 0, bi + bs)"
    by (simp only: extend_back_diag)
  also have "\<dots> = (0, 0, length a)"
    using b(2) by (rule extend_fwd_diag)
  finally show ?thesis .
qed

lemma matching_blocks_self:
  "matching_blocks_rec a a 0 (length a) 0 (length a) = (if a = [] then [] else [(0, 0, length a)])"
  by (subst matching_blocks_rec.simps) (simp add: find_longest_match_self)

lemma fl_one: "fl 1 = 1"
  by code_simp

lemma ratio_self: "ratio a a = 1"
proof (cases "a = []")
  case True
  then show ?thesis
    by (simp add: ratio_def get_matching_blocks_def matching_blocks_self calculate_ratio_def)
next
  case False
  then have "get_matching_blocks a a = [(0, 0, length a), (length a, length a, 0)]"
    by (simp add: get_matching_blocks_def matching_blocks_self)
  then have "ratio a a = fl ((2 * of_nat (length a)) / (of_nat (length a + length a)))"
    using False by (simp add: ratio_def calculate_ratio_def fdiv_def)
  also have "(2 * of_nat (length a)) / (of_nat (length a + length a)) = (1 :: rat)"
    using False by simp
  finally show ?thesis by (simp add: fl_one)
qed

lemma starts_with_self: "starts_with a a"
  by (induction a) auto

lemma str_in_self: "str_in a a"
  by (cases a) (simp_all add: starts_with_self)

text \<open>
  Claim C7, as amended. The ratio of a string with itself is \<open>1.0\<close>, so its score is
  \<open>1.0 + 0.12\<close>; and the bonus never breaks symmetry: whenever the ratio of \<open>(a, b)\<close>
  equals the ratio of \<open>(b, a)\<close>, so do the scores. The ratio itself depends on the
  order of its arguments.
\<close>

theorem score_of_identical_strings:
  "ratio a a = 1 \<and> score a a = fadd 1 bonus
   \<and> (ratio a b = ratio b a \<longrightarrow> score a b = score b a)"
proof -
  have "score a a = fadd 1 bonus"
    by (simp add: score_def ratio_self str_in_self)
  moreover have "score a b = score b a" if "ratio a b = ratio b a"
    using that by (auto simp: score_def Let_def)
  ultimately show ?thesis
    using ratio_self by blast
qed

theorem score_of_identical_strings_witness:
  "ratio ''ab'' ''ba'' = ratio ''ba'' ''ab'' \<and> score ''ab'' ''ba'' = score ''ba'' ''ab''
   \<and> ratio ''charbagh'' ''charbagh'' = 1 \<and> score ''charbagh'' ''charbagh'' = fadd 1 bonus"
proof -
  have "ratio ''ab'' ''ba'' = ratio ''ba'' ''ab''"
    by code_simp
  with score_of_identical_strings [of "''ab''" "''ba''"]
    score_of_identical_strings [of "''charbagh''" "''ba''"]
  show ?thesis by blast
qed

text \<open>
  Claim C7 as stated fails: the ratio of \<open>tide\<close> and \<open>diet\<close> is \<open>0.25\<close> and the ratio of
  \<open>diet\<close> and \<open>tide\<close> is \<open>0.5\<close> (neither is a substring of the other, so these are the
  scores).
\<close>

theorem score_not_symmetric:
  "score ''tide'' ''diet'' = 1 / 4 \<and> score ''diet'' ''tide'' = 1 / 2"
  by code_simp

end
